theory Spec2Isabelle
  imports Main "HOL-Library.Sublist" "HOL-Library.Multiset"
begin

section \<open>Strings\<close>

text \<open>
  A JavaScript string is a sequence of UTF-16 code units. The model covers the strings
  whose code units are all below 256 (ASCII and Latin-1): a \<^typ>\<open>char\<close> is one code
  unit, \<^term>\<open>of_char c\<close> its number. On these strings the functions below are what
  \<^verbatim>\<open>toLowerCase\<close>, \<^verbatim>\<open>trim\<close>, \<^verbatim>\<open>includes\<close>,
  \<^verbatim>\<open>startsWith\<close> and \<^verbatim>\<open>replace(/\b(the|a|an)\b/g, '')\<close> compute:
  below 256 the upper-case letters are A to Z and the Latin-1 letters 192 to 222 without
  the multiplication sign 215, each 32 below its lower-case letter.
\<close>

definition toLowerChar :: "char \<Rightarrow> char" where
  "toLowerChar c =
     (let n = (of_char c :: nat)
      in if (65 \<le> n \<and> n \<le> 90) \<or> (192 \<le> n \<and> n \<le> 222 \<and> n \<noteq> 215)
         then char_of (n + 32) else c)"

definition toLowerCase :: "string \<Rightarrow> string" where
  "toLowerCase s = map toLowerChar s"

definition isWhiteSpace :: "char \<Rightarrow> bool" where
  \<comment> \<open>TAB, LF, VT, FF, CR, SPACE and NO-BREAK SPACE: the white space and line
      terminators of ECMAScript below 256.\<close>
  "isWhiteSpace c = ((of_char c :: nat) \<in> {9, 10, 11, 12, 13, 32, 160})"

definition trim :: "string \<Rightarrow> string" where
  "trim s = rev (dropWhile isWhiteSpace (rev (dropWhile isWhiteSpace s)))"

definition str_includes :: "string \<Rightarrow> string \<Rightarrow> bool" where
  \<comment> \<open>\<^verbatim>\<open>s.includes(t)\<close>\<close>
  "str_includes s t = sublist t s"

definition startsWith :: "string \<Rightarrow> string \<Rightarrow> bool" where
  \<comment> \<open>\<^verbatim>\<open>s.startsWith(t)\<close>\<close>
  "startsWith s t = prefix t s"

definition isWordChar :: "char \<Rightarrow> bool" where
  \<comment> \<open>the class \<^verbatim>\<open>\w\<close> of a regular expression without flags u or i: [A-Za-z0-9_]\<close>
  "isWordChar c =
     (let n = (of_char c :: nat)
      in (48 \<le> n \<and> n \<le> 57) \<or> (65 \<le> n \<and> n \<le> 90) \<or> n = 95 \<or> (97 \<le> n \<and> n \<le> 122))"

text \<open>
  The regular expression \<^verbatim>\<open>/\b(the|a|an)\b/g\<close> is matched from left to right. At
  each position one match is attempted; after a match the scan goes on behind it, otherwise
  the character is kept and the scan moves one character on. The input is never changed
  while it is scanned, so \<^verbatim>\<open>\b\<close> looks at the characters of the input itself.
\<close>

definition wordBoundary :: "bool \<Rightarrow> string \<Rightarrow> bool" where
  \<comment> \<open>\<^verbatim>\<open>\b\<close> at a position: \<open>prevWord\<close> says whether the character before the
      position is a word character (False at the start of the input), \<open>rest\<close> is the input
      from the position on.\<close>
  "wordBoundary prevWord rest =
     (prevWord \<noteq> (case rest of [] \<Rightarrow> False | c # _ \<Rightarrow> isWordChar c))"

definition matchStopword :: "bool \<Rightarrow> string \<Rightarrow> nat option" where
  \<comment> \<open>One attempt of \<^verbatim>\<open>\b(the|a|an)\b\<close> at a position: the length of the match, the
      alternatives tried from left to right, each with the closing \<^verbatim>\<open>\b\<close>.\<close>
  "matchStopword prevWord rest =
     (if \<not> wordBoundary prevWord rest then None
      else if prefix ''the'' rest \<and> wordBoundary True (drop 3 rest) then Some 3
      else if prefix ''a'' rest \<and> wordBoundary True (drop 1 rest) then Some 1
      else if prefix ''an'' rest \<and> wordBoundary True (drop 2 rest) then Some 2
      else None)"

function replaceStopwords :: "bool \<Rightarrow> string \<Rightarrow> string" where
  "replaceStopwords prevWord [] = []"
| "replaceStopwords prevWord (c # cs) =
     (case matchStopword prevWord (c # cs) of
        Some l \<Rightarrow> replaceStopwords True (drop l (c # cs))
      | None \<Rightarrow> c # replaceStopwords (isWordChar c) cs)"
  by pat_completeness auto
termination
  by (relation "measure (\<lambda>(prevWord, s). length s)")
     (auto simp: matchStopword_def split: if_splits)

definition stripStopwords :: "string \<Rightarrow> string" where
  \<comment> \<open>\<^verbatim>\<open>s.replace(/\b(the|a|an)\b/g, '')\<close>: the scan starts at the beginning of s.\<close>
  "stripStopwords s = replaceStopwords False s"

text \<open>
  The words of a text: \<open>runs\<close> cuts it into its maximal runs of word characters and of
  other characters, in order. Neighbouring runs are of different kinds (\<open>alternating\<close>),
  each run is of one kind and not empty (\<open>oneClass\<close>). \<open>gapAhead\<close> says that a text
  does not go on with a word character.
\<close>

function runs :: "string \<Rightarrow> string list" where
  "runs [] = []"
| "runs (c # cs) =
     (if isWordChar c
      then takeWhile isWordChar (c # cs) # runs (dropWhile isWordChar (c # cs))
      else takeWhile (\<lambda>x. \<not> isWordChar x) (c # cs)
           # runs (dropWhile (\<lambda>x. \<not> isWordChar x) (c # cs)))"
  by pat_completeness auto
termination
  by (relation "measure length") (auto simp: length_dropWhile_le le_imp_less_Suc)

definition isStopword :: "string \<Rightarrow> bool" where
  "isStopword w = (w = ''the'' \<or> w = ''a'' \<or> w = ''an'')"

definition gapAhead :: "string \<Rightarrow> bool" where
  "gapAhead r = (case r of [] \<Rightarrow> True | c # _ \<Rightarrow> \<not> isWordChar c)"

fun alternating :: "string list \<Rightarrow> bool" where
  "alternating (a # b # rs) = (isWordChar (hd a) \<noteq> isWordChar (hd b) \<and> alternating (b # rs))"
| "alternating rs = True"

definition oneClass :: "string \<Rightarrow> bool" where
  "oneClass w = (w \<noteq> [] \<and> list_all (\<lambda>c. isWordChar c = isWordChar (hd w)) w)"

section \<open>Card catalog and fuzzy matcher\<close>

text \<open>
  A card of the catalog has a name, an image URL and, optionally, a list of spoken
  alternatives. The catalog object maps an elixir cost to an array of cards; it is kept as the
  list of its entries in the order in which \<^verbatim>\<open>for (const elixirCost in this.cards)\<close>
  visits them (the keys of an object are distinct, and nothing below depends on them). Each
  of the five loops of \<^verbatim>\<open>findBestCardMatch\<close> is the same pair of nested loops
  with another test, and returns from the function at the first card that passes.
\<close>

record card =
  name :: string
  image :: string
  alternatives :: "string list option"

type_synonym catalog = "(string \<times> card list) list"

fun scanCards :: "(card \<Rightarrow> bool) \<Rightarrow> card list \<Rightarrow> card option" where
  \<comment> \<open>\<^verbatim>\<open>for (const card of this.cards[elixirCost]) { if (hit) return card; }\<close>\<close>
  "scanCards hit [] = None"
| "scanCards hit (c # cs) = (if hit c then Some c else scanCards hit cs)"

fun scanCatalog :: "(card \<Rightarrow> bool) \<Rightarrow> catalog \<Rightarrow> card option" where
  \<comment> \<open>\<^verbatim>\<open>for (const elixirCost in this.cards) { for (const card of ...) ... }\<close>\<close>
  "scanCatalog hit [] = None"
| "scanCatalog hit ((elixirCost, elixirCards) # rest) =
     (case scanCards hit elixirCards of
        Some c \<Rightarrow> Some c
      | None \<Rightarrow> scanCatalog hit rest)"

fun scanAlternatives :: "(string \<Rightarrow> bool) \<Rightarrow> string list \<Rightarrow> bool" where
  \<comment> \<open>\<^verbatim>\<open>for (const alt of card.alternatives) { if (hit) return card; }\<close>\<close>
  "scanAlternatives hit [] = False"
| "scanAlternatives hit (alt # alts) = (if hit alt then True else scanAlternatives hit alts)"

definition anyAlternative :: "(string \<Rightarrow> bool) \<Rightarrow> card \<Rightarrow> bool" where
  \<comment> \<open>\<^verbatim>\<open>if (card.alternatives) { for (const alt of card.alternatives) ... }\<close>\<close>
  "anyAlternative hit c =
     (case alternatives c of None \<Rightarrow> False | Some alts \<Rightarrow> scanAlternatives hit alts)"

definition findBestCardMatch :: "catalog \<Rightarrow> string \<Rightarrow> card option" where
  "findBestCardMatch cat spokenName =
     (let spoken = trim (toLowerCase spokenName) in
      case scanCatalog (\<lambda>c. toLowerCase (name c) = spoken) cat of
        Some c \<Rightarrow> Some c
      | None \<Rightarrow>
      (case scanCatalog (anyAlternative (\<lambda>alt. toLowerCase alt = spoken)) cat of
        Some c \<Rightarrow> Some c
      | None \<Rightarrow>
      (case scanCatalog (\<lambda>c. str_includes (toLowerCase (name c)) spoken
                           \<or> str_includes spoken (toLowerCase (name c))) cat of
        Some c \<Rightarrow> Some c
      | None \<Rightarrow>
      (case scanCatalog (anyAlternative (\<lambda>alt. str_includes (toLowerCase alt) spoken
                           \<or> str_includes spoken (toLowerCase alt))) cat of
        Some c \<Rightarrow> Some c
      | None \<Rightarrow>
      (let cleanSpoken = trim (stripStopwords spoken) in
       scanCatalog (\<lambda>c. let cleanCardName = trim (stripStopwords (toLowerCase (name c)))
                        in str_includes cleanCardName cleanSpoken
                           \<or> str_includes cleanSpoken cleanCardName) cat)))))"

section \<open>Deck state machine\<close>

text \<open>
  The card objects of the deck are mutable (the drop listener flips \<^verbatim>\<open>isEvo\<close> in
  place) and are held by reference, so they live in an explicit store: \<open>heap\<close> is the
  list of all slot-card objects ever created, a reference is an index into it, and a new
  object is appended. A deck array and every snapshot of the history is a list of slots, each
  \<open>None\<close> (\<^verbatim>\<open>null\<close>) or a reference. The arrays themselves are never shared
  (a snapshot is a fresh array, and \<^verbatim>\<open>pop\<close> takes it out of the history before it
  becomes the deck), so they are values. Strings and the list of alternatives are never
  written to, so they are values too.

  Rendering, the other DOM calls, console output and the state of the speech recognition
  are left out. \<open>notifications\<close> collects the messages of
  \<^verbatim>\<open>showVoiceConfirmation\<close> in the order shown; \<open>matcherCalls\<close> records every call
  of \<^verbatim>\<open>findBestCardMatch\<close> with its argument, to make statements about calls of the
  matcher possible.
\<close>

record slot_card = card +
  isEvo :: bool

type_synonym ref = nat
type_synonym slot = "ref option"

record tracker =
  cards :: catalog
  heap :: "slot_card list"
  deck :: "slot list"
  history :: "slot list list"
  selectedElixir :: "string option"
  notifications :: "string list"
  matcherCalls :: "string list"

definition constructor :: tracker where
  "constructor =
     \<lparr>cards = [], heap = [], deck = replicate 8 None, history = [],
      selectedElixir = None, notifications = [], matcherCalls = []\<rparr>"

definition loadCards :: "catalog \<Rightarrow> tracker \<Rightarrow> tracker" where
  \<comment> \<open>the fetch of cards.json completing with the given catalog\<close>
  "loadCards cat s = s\<lparr>cards := cat\<rparr>"

definition slotAt :: "slot list \<Rightarrow> nat \<Rightarrow> slot" where
  \<comment> \<open>\<^verbatim>\<open>this.deck[position]\<close>; out of range it is \<^verbatim>\<open>undefined\<close>, falsy like
      \<^verbatim>\<open>null\<close>\<close>
  "slotAt d position = (if position < length d then d ! position else None)"

fun deepCopy :: "slot_card list \<Rightarrow> slot list \<Rightarrow> slot_card list \<times> slot list" where
  \<comment> \<open>\<^verbatim>\<open>JSON.parse(JSON.stringify(deck))\<close>: a new array whose occupied slots refer to
      new objects with the contents of the old ones\<close>
  "deepCopy h [] = (h, [])"
| "deepCopy h (None # rest) = (let (h', copied) = deepCopy h rest in (h', None # copied))"
| "deepCopy h (Some r # rest) =
     (let (h', copied) = deepCopy (h @ [h ! r]) rest in (h', Some (length h) # copied))"

definition saveState :: "tracker \<Rightarrow> tracker" where
  "saveState s =
     (let (h, snapshot) = deepCopy (heap s) (deck s);
          pushed = history s @ [snapshot]
      in s\<lparr>heap := h,
           history := (if length pushed > 10 then tl pushed else pushed)\<rparr>)"

definition undo :: "tracker \<Rightarrow> tracker" where
  "undo s =
     (if length (history s) > 0
      then s\<lparr>deck := last (history s), history := butlast (history s)\<rparr>
      else s)"

definition splice1 :: "nat \<Rightarrow> 'a list \<Rightarrow> 'a list" where
  \<comment> \<open>\<^verbatim>\<open>splice(position, 1)\<close>\<close>
  "splice1 position xs = take position xs @ drop (Suc position) xs"

definition cycleCard :: "nat \<Rightarrow> tracker \<Rightarrow> tracker" where
  "cycleCard position s =
     (case slotAt (deck s) position of
        None \<Rightarrow> s
      | Some _ \<Rightarrow>
          (let s1 = saveState s;
               card = slotAt (deck s1) position;
               d1 = splice1 position (deck s1) @ [card];
               d2 = (if length d1 > 8 then drop (length d1 - 8) d1 else d1)
           in s1\<lparr>deck := d2\<rparr>))"

fun findIndex :: "('a \<Rightarrow> bool) \<Rightarrow> 'a list \<Rightarrow> nat option" where
  \<comment> \<open>\<open>None\<close> stands for the result -1\<close>
  "findIndex P [] = None"
| "findIndex P (x # xs) = (if P x then Some 0 else map_option Suc (findIndex P xs))"

definition sameName :: "slot_card list \<Rightarrow> card \<Rightarrow> slot \<Rightarrow> bool" where
  \<comment> \<open>\<^verbatim>\<open>deckCard && deckCard.name === card.name\<close>\<close>
  "sameName h c sl = (case sl of None \<Rightarrow> False | Some r \<Rightarrow> name (h ! r) = name c)"

definition newSlotCard :: "card \<Rightarrow> slot_card" where
  \<comment> \<open>\<^verbatim>\<open>{ ...card, isEvo: false }\<close>\<close>
  "newSlotCard c =
     \<lparr>name = name c, image = image c, alternatives = alternatives c, isEvo = False\<rparr>"

definition selectCard :: "card \<Rightarrow> tracker \<Rightarrow> tracker" where
  "selectCard c s =
     (let s1 = saveState s;
          s2 = (case findIndex (sameName (heap s1) c) (deck s1) of
                  Some existingIndex \<Rightarrow> cycleCard existingIndex s1
                | None \<Rightarrow>
                    s1\<lparr>heap := heap s1 @ [newSlotCard c],
                        deck := tl (deck s1) @ [Some (length (heap s1))]\<rparr>)
      in s2\<lparr>selectedElixir := None\<rparr>)"

definition selectElixir :: "string \<Rightarrow> bool \<Rightarrow> tracker \<Rightarrow> tracker" where
  \<comment> \<open>\<open>buttonFound\<close> says whether \<^verbatim>\<open>document.querySelector\<close> finds a button with the
      elixir value. Without one \<^verbatim>\<open>selectedBtn.classList\<close> throws: the snapshot is
      pushed by then, the assignment to \<^verbatim>\<open>this.selectedElixir\<close> is not reached.\<close>
  "selectElixir elixir buttonFound s =
     (if buttonFound then (saveState s)\<lparr>selectedElixir := Some elixir\<rparr> else saveState s)"

definition writeObject :: "ref \<Rightarrow> (slot_card \<Rightarrow> slot_card) \<Rightarrow> tracker \<Rightarrow> tracker" where
  \<comment> \<open>an assignment to fields of the object behind a reference\<close>
  "writeObject r f s = s\<lparr>heap := (heap s)[r := f (heap s ! r)]\<rparr>"

definition toggleEvolution :: "nat \<Rightarrow> tracker \<Rightarrow> tracker" where
  \<comment> \<open>the drop listener of \<^verbatim>\<open>initializeEvoDragDrop\<close>, for a drop that carries
      \<^verbatim>\<open>'evo'\<close>\<close>
  "toggleEvolution position s =
     (case slotAt (deck s) position of
        None \<Rightarrow> s
      | Some r \<Rightarrow> writeObject r (\<lambda>card. card\<lparr>isEvo := \<not> isEvo card\<rparr>) (saveState s))"

section \<open>Voice commands\<close>

definition showVoiceConfirmation :: "string \<Rightarrow> tracker \<Rightarrow> tracker" where
  "showVoiceConfirmation message s = s\<lparr>notifications := notifications s @ [message]\<rparr>"

definition addCardByVoice :: "string \<Rightarrow> tracker \<Rightarrow> tracker" where
  "addCardByVoice spokenCardName s =
     (let s0 = s\<lparr>matcherCalls := matcherCalls s @ [spokenCardName]\<rparr>
      in case findBestCardMatch (cards s) spokenCardName of
           Some matchedCard \<Rightarrow>
             showVoiceConfirmation (''Added: '' @ name matchedCard) (selectCard matchedCard s0)
         | None \<Rightarrow>
             showVoiceConfirmation (''Card not found: '' @ spokenCardName) s0)"

definition processVoiceCommand :: "string \<Rightarrow> tracker \<Rightarrow> tracker" where
  "processVoiceCommand transcript s =
     (if startsWith transcript ''add ''
      then addCardByVoice (trim (drop 4 transcript)) s
      else s)"

definition onresult :: "string \<Rightarrow> tracker \<Rightarrow> tracker" where
  \<comment> \<open>the \<^verbatim>\<open>recognition.onresult\<close> handler\<close>
  "onresult transcript s = processVoiceCommand (toLowerCase transcript) s"

section \<open>Actions and reachable states\<close>

text \<open>
  The events that reach the tracker: the catalog arriving, a click on an elixir button, on a
  card of the picker or on a slot, the evolution star dropped on a slot, the undo button, and
  a result of the speech recognition. The click listener of a slot tests the slot before it
  calls \<^verbatim>\<open>cycleCard\<close>, which tests it again; \<open>CycleCard\<close> is the call itself.
  \<open>SelectElixir\<close> carries, besides the elixir value, whether the page has a button for
  it.
\<close>

datatype action =
    LoadCards catalog
  | SelectElixir string bool
  | SelectCard card
  | CycleCard nat
  | ToggleEvolution nat
  | Undo
  | VoiceResult string

fun step :: "action \<Rightarrow> tracker \<Rightarrow> tracker" where
  "step (LoadCards cat) s = loadCards cat s"
| "step (SelectElixir elixir buttonFound) s = selectElixir elixir buttonFound s"
| "step (SelectCard c) s = selectCard c s"
| "step (CycleCard position) s = cycleCard position s"
| "step (ToggleEvolution position) s = toggleEvolution position s"
| "step Undo s = undo s"
| "step (VoiceResult transcript) s = onresult transcript s"

definition run :: "action list \<Rightarrow> tracker \<Rightarrow> tracker" where
  "run acts s = fold step acts s"

section \<open>Views and invariants\<close>

text \<open>What a reference, a deck and the history look like through the store.\<close>

definition slotView :: "slot_card list \<Rightarrow> slot \<Rightarrow> slot_card option" where
  "slotView h sl = map_option (\<lambda>r. h ! r) sl"

definition deckView :: "tracker \<Rightarrow> slot_card option list" where
  "deckView s = map (slotView (heap s)) (deck s)"

definition historyView :: "tracker \<Rightarrow> slot_card option list list" where
  "historyView s = map (map (slotView (heap s))) (history s)"

definition validSlot :: "slot_card list \<Rightarrow> slot \<Rightarrow> bool" where
  "validSlot h sl = (case sl of None \<Rightarrow> True | Some r \<Rightarrow> r < length h)"

definition validRefs :: "slot_card list \<Rightarrow> slot list \<Rightarrow> bool" where
  \<comment> \<open>no dangling reference\<close>
  "validRefs h d = list_all (validSlot h) d"

definition deckShape :: "tracker \<Rightarrow> bool" where
  \<comment> \<open>the deck and every snapshot of the history have exactly 8 slots\<close>
  "deckShape s =
     (length (deck s) = 8 \<and> list_all (\<lambda>snapshot. length snapshot = 8) (history s))"

definition wellFormed :: "tracker \<Rightarrow> bool" where
  \<comment> \<open>neither the deck nor a snapshot holds a dangling reference\<close>
  "wellFormed s =
     (validRefs (heap s) (deck s) \<and> list_all (validRefs (heap s)) (history s))"

definition historyBound :: "tracker \<Rightarrow> bool" where
  "historyBound s = (length (history s) \<le> 10)"

text \<open>
  The references of a deck in slot order, and all references of a state: those of the
  snapshots, oldest first, then those of the deck. In a separated state no object is
  referred to twice, so a write to an object of the deck is seen by no snapshot.
\<close>

fun refsList :: "slot list \<Rightarrow> ref list" where
  "refsList [] = []"
| "refsList (None # d) = refsList d"
| "refsList (Some r # d) = r # refsList d"

definition allRefs :: "tracker \<Rightarrow> ref list" where
  "allRefs s = concat (map refsList (history s)) @ refsList (deck s)"

definition separated :: "tracker \<Rightarrow> bool" where
  "separated s = distinct (allRefs s)"

definition goodState :: "tracker \<Rightarrow> bool" where
  "goodState s = (deckShape s \<and> wellFormed s \<and> separated s)"

text \<open>
  The names of the cards of a deck in slot order. A deck never gets a second card of a
  name: \<^verbatim>\<open>selectCard\<close> looks the name up first.
\<close>

fun namesOf :: "slot_card option list \<Rightarrow> string list" where
  "namesOf [] = []"
| "namesOf (None # v) = namesOf v"
| "namesOf (Some c # v) = name c # namesOf v"

definition distinctNames :: "tracker \<Rightarrow> bool" where
  "distinctNames s =
     (distinct (namesOf (deckView s)) \<and> list_all (\<lambda>v. distinct (namesOf v)) (historyView s))"

definition reachableInv :: "tracker \<Rightarrow> bool" where
  "reachableInv s = (goodState s \<and> historyBound s \<and> distinctNames s)"

section \<open>Snapshot pushes and writes in place\<close>

definition lastN :: "nat \<Rightarrow> 'a list \<Rightarrow> 'a list" where
  \<comment> \<open>the last n elements, all of them when there are fewer\<close>
  "lastN n xs = drop (length xs - n) xs"

text \<open>
  \<open>pushes s vs t\<close>: the state \<open>t\<close> comes from \<open>s\<close> by snapshot pushes, and \<open>vs\<close> lists,
  in push order, the decks as they were when each push was made (the pre-mutation
  states). Between two pushes the deck and the objects may change in any way that leaves
  the contents of the history alone.
\<close>

inductive pushes :: "tracker \<Rightarrow> slot_card option list list \<Rightarrow> tracker \<Rightarrow> bool" where
  pushes_start: "pushes s [] s"
| pushes_push: "pushes s vs t \<Longrightarrow> wellFormed t \<Longrightarrow> pushes s (vs @ [deckView t]) (saveState t)"
| pushes_change: "pushes s vs t \<Longrightarrow> historyView t' = historyView t \<Longrightarrow> pushes s vs t'"

definition mutateSlot :: "nat \<Rightarrow> (slot_card \<Rightarrow> slot_card) \<Rightarrow> tracker \<Rightarrow> tracker" where
  \<comment> \<open>an assignment to fields of the object that sits in a slot of the current deck, as
      \<^verbatim>\<open>card.isEvo = !card.isEvo\<close> is for \<^verbatim>\<open>card = this.deck[position]\<close>\<close>
  "mutateSlot position f s =
     (case slotAt (deck s) position of
        None \<Rightarrow> s
      | Some r \<Rightarrow> writeObject r f s)"

fun mutateSlots :: "(nat \<times> (slot_card \<Rightarrow> slot_card)) list \<Rightarrow> tracker \<Rightarrow> tracker" where
  "mutateSlots [] s = s"
| "mutateSlots ((position, f) # ms) s = mutateSlots ms (mutateSlot position f s)"

definition rotated :: "nat \<Rightarrow> slot list \<Rightarrow> slot list" where
  \<comment> \<open>the deck with the slot at position p taken out and put at the end\<close>
  "rotated p d = splice1 p d @ [d ! p]"

section \<open>The matcher as a cascade of tiers\<close>

text \<open>
  The five strategies as the specification words them, each a test on one card, and the
  cascade: the tiers are tried in order, each on the whole catalog, and the first card that
  passes the first tier with any hit is the result.
\<close>

definition catalogCards :: "catalog \<Rightarrow> card list" where
  \<comment> \<open>all cards in catalog iteration order\<close>
  "catalogCards cat = concat (map snd cat)"

definition alternativesOf :: "card \<Rightarrow> string list" where
  "alternativesOf c = (case alternatives c of None \<Rightarrow> [] | Some alts \<Rightarrow> alts)"

definition equalsIgnoreCase :: "string \<Rightarrow> string \<Rightarrow> bool" where
  "equalsIgnoreCase a b = (toLowerCase a = toLowerCase b)"

definition eitherContains :: "string \<Rightarrow> string \<Rightarrow> bool" where
  \<comment> \<open>the substring test in either direction\<close>
  "eitherContains a b = (sublist a b \<or> sublist b a)"

definition containsIgnoreCase :: "string \<Rightarrow> string \<Rightarrow> bool" where
  "containsIgnoreCase a b = eitherContains (toLowerCase a) (toLowerCase b)"

definition tier1 :: "string \<Rightarrow> card \<Rightarrow> bool" where
  "tier1 spokenText c = equalsIgnoreCase spokenText (name c)"

definition tier2 :: "string \<Rightarrow> card \<Rightarrow> bool" where
  "tier2 spokenText c = list_ex (equalsIgnoreCase spokenText) (alternativesOf c)"

definition tier3 :: "string \<Rightarrow> card \<Rightarrow> bool" where
  "tier3 spokenText c = containsIgnoreCase spokenText (name c)"

definition tier4 :: "string \<Rightarrow> card \<Rightarrow> bool" where
  "tier4 spokenText c = list_ex (containsIgnoreCase spokenText) (alternativesOf c)"

definition tier5 :: "string \<Rightarrow> card \<Rightarrow> bool" where
  \<comment> \<open>the stop words stripped from both texts, nothing else\<close>
  "tier5 spokenText c =
     eitherContains (stripStopwords (toLowerCase spokenText))
                    (stripStopwords (toLowerCase (name c)))"

definition tier5_trimmed :: "string \<Rightarrow> card \<Rightarrow> bool" where
  \<comment> \<open>as \<open>tier5\<close>, with the white space around both stripped texts removed\<close>
  "tier5_trimmed spokenText c =
     eitherContains (trim (stripStopwords (toLowerCase spokenText)))
                    (trim (stripStopwords (toLowerCase (name c))))"

fun firstHit :: "(card \<Rightarrow> bool) list \<Rightarrow> card list \<Rightarrow> card option" where
  "firstHit [] cs = None"
| "firstHit (tier # tiers) cs =
     (case find tier cs of
        Some c \<Rightarrow> Some c
      | None \<Rightarrow> firstHit tiers cs)"

definition findBestMatch_spec :: "catalog \<Rightarrow> string \<Rightarrow> card option" where
  \<comment> \<open>the five tiers as worded, applied to the spoken text as it is\<close>
  "findBestMatch_spec cat spokenText =
     firstHit [tier1 spokenText, tier2 spokenText, tier3 spokenText, tier4 spokenText,
               tier5 spokenText] (catalogCards cat)"

definition findBestMatch_trimmed :: "catalog \<Rightarrow> string \<Rightarrow> card option" where
  \<comment> \<open>the five tiers applied to the trimmed spoken text, the fifth with trimmed stripped
      texts\<close>
  "findBestMatch_trimmed cat spokenText =
     (let t = trim spokenText
      in firstHit [tier1 t, tier2 t, tier3 t, tier4 t, tier5_trimmed t] (catalogCards cat))"

section \<open>Example data\<close>

definition knight :: card where
  "knight = \<lparr>name = ''Knight'', image = ''images/knight.png'', alternatives = None\<rparr>"

definition archers :: card where
  "archers =
     \<lparr>name = ''Archers'', image = ''images/archers.png'', alternatives = Some [''archer'']\<rparr>"

definition anotherKnight :: card where
  "anotherKnight =
     \<lparr>name = ''Another Knight'', image = ''images/another.png'', alternatives = None\<rparr>"

definition megaKnight :: card where
  "megaKnight =
     \<lparr>name = ''Mega Knight'', image = ''images/mega.png'', alternatives = None\<rparr>"

definition knightRider :: card where
  "knightRider =
     \<lparr>name = ''Knight Rider'', image = ''images/rider.png'', alternatives = None\<rparr>"

definition plainCard :: card where
  "plainCard = \<lparr>name = ''Card'', image = ''images/card.png'', alternatives = None\<rparr>"

definition silentArchers :: card where
  \<comment> \<open>a card with an empty spoken alternative\<close>
  "silentArchers =
     \<lparr>name = ''Archers'', image = ''images/archers.png'', alternatives = Some ['''']\<rparr>"

definition exampleCatalog :: catalog where
  "exampleCatalog = [(''3'', [knight, archers]), (''7'', [megaKnight])]"

definition exampleState :: tracker where
  \<comment> \<open>Knight in slot 6, Archers in slot 7, two snapshots in the history\<close>
  "exampleState = run [SelectCard knight, SelectCard archers] constructor"

definition tenPushes :: "action list" where
  \<comment> \<open>ten snapshots: the empty deck once, then nine times the deck with Knight\<close>
  "tenPushes = SelectCard knight # replicate 9 (SelectElixir ''3'' True)"

definition theKnight :: card where
  "theKnight =
     \<lparr>name = ''The Knight'', image = ''images/the.png'', alternatives = None\<rparr>"

section \<open>Auxiliary facts\<close>

subsection \<open>The store and deep copies\<close>

lemma prefix_nth: "prefix h h' \<Longrightarrow> r < length h \<Longrightarrow> h' ! r = h ! r"
  by (auto simp: prefix_def nth_append)

lemma deepCopy_prefix: "prefix h (fst (deepCopy h d))"
proof (induction h d rule: deepCopy.induct)
  case (3 h r rest)
  then have "prefix (h @ [h ! r]) (fst (deepCopy (h @ [h ! r]) rest))" by simp
  then have "prefix h (fst (deepCopy (h @ [h ! r]) rest))" by (rule append_prefixD)
  then show ?case by (simp add: split_beta)
qed (simp_all add: split_beta)

lemma deepCopy_length: "length (snd (deepCopy h d)) = length d"
  by (induction h d rule: deepCopy.induct) (simp_all add: split_beta)

lemma deepCopy_heap_length: "length h \<le> length (fst (deepCopy h d))"
  using deepCopy_prefix [of h d] by (rule prefix_length_le)

lemma deepCopy_fresh:
  "Some r \<in> set (snd (deepCopy h d)) \<Longrightarrow> length h \<le> r \<and> r < length (fst (deepCopy h d))"
proof (induction h d rule: deepCopy.induct)
  case (3 h q rest)
  have len: "length (h @ [h ! q]) \<le> length (fst (deepCopy (h @ [h ! q]) rest))"
    by (rule deepCopy_heap_length)
  from 3 show ?case using len by (auto simp: split_beta)
qed (auto simp: split_beta)

lemma validRefs_Nil: "validRefs h []"
  by (simp add: validRefs_def)

lemma validRefs_Cons:
  "validRefs h (sl # d) \<longleftrightarrow> validSlot h sl \<and> validRefs h d"
  by (simp add: validRefs_def)

lemma validRefs_append:
  "validRefs h (d @ e) \<longleftrightarrow> validRefs h d \<and> validRefs h e"
  by (simp add: validRefs_def)

lemma validRefs_iff: "validRefs h d \<longleftrightarrow> (\<forall>sl \<in> set d. validSlot h sl)"
  by (simp add: validRefs_def list_all_iff)

lemma slotView_simps:
  "slotView h None = None"
  "slotView h (Some r) = Some (h ! r)"
  by (simp_all add: slotView_def)

lemma validSlot_prefix: "prefix h h' \<Longrightarrow> validSlot h sl \<Longrightarrow> validSlot h' sl"
  using prefix_length_le [of h h'] by (cases sl) (auto simp: validSlot_def)

lemma validRefs_prefix: "prefix h h' \<Longrightarrow> validRefs h d \<Longrightarrow> validRefs h' d"
  by (induction d) (auto simp: validRefs_Nil validRefs_Cons validSlot_prefix)

lemma slotView_eq_prefix:
  "prefix h h' \<Longrightarrow> validSlot h sl \<Longrightarrow> slotView h' sl = slotView h sl"
  by (cases sl) (auto simp: validSlot_def slotView_simps prefix_nth)

lemma slotView_prefix:
  "prefix h h' \<Longrightarrow> validRefs h d \<Longrightarrow> map (slotView h') d = map (slotView h) d"
  by (induction d) (auto simp: validRefs_Cons slotView_eq_prefix)

lemma deepCopy_view:
  "validRefs h d \<Longrightarrow> map (slotView (fst (deepCopy h d))) (snd (deepCopy h d)) = map (slotView h) d"
proof (induction h d rule: deepCopy.induct)
  case (1 h)
  then show ?case by simp
next
  case (2 h rest)
  then show ?case by (simp add: split_beta validRefs_Cons slotView_simps)
next
  case (3 h r rest)
  let ?h1 = "h @ [h ! r]"
  let ?h' = "fst (deepCopy ?h1 rest)"
  from 3 have r: "r < length h" and rest: "validRefs h rest"
    by (simp_all add: validRefs_Cons validSlot_def)
  have p1: "prefix h ?h1" by simp
  have p2: "prefix ?h1 ?h'" by (rule deepCopy_prefix)
  from rest p1 have rest1: "validRefs ?h1 rest" by (rule validRefs_prefix [rotated])
  have "map (slotView ?h') (snd (deepCopy ?h1 rest)) = map (slotView ?h1) rest"
    using 3 rest1 by simp
  also have "\<dots> = map (slotView h) rest" using p1 rest by (rule slotView_prefix)
  finally have tl: "map (slotView ?h') (snd (deepCopy ?h1 rest)) = map (slotView h) rest" .
  have "?h' ! length h = ?h1 ! length h" using p2 by (rule prefix_nth) simp
  then have hd: "?h' ! length h = h ! r" by simp
  show ?case using tl hd by (simp add: split_beta slotView_simps)
qed

lemma deepCopy_valid: "validRefs (fst (deepCopy h d)) (snd (deepCopy h d))"
  using deepCopy_fresh [of _ h d]
  by (auto simp: validRefs_def list_all_iff validSlot_def split: option.splits)

subsection \<open>Snapshots and the shape of the deck\<close>

lemma saveState_fields:
  "deck (saveState s) = deck s"
  "cards (saveState s) = cards s"
  "selectedElixir (saveState s) = selectedElixir s"
  "notifications (saveState s) = notifications s"
  "matcherCalls (saveState s) = matcherCalls s"
  "heap (saveState s) = fst (deepCopy (heap s) (deck s))"
  by (simp_all add: saveState_def split_beta Let_def)

lemma saveState_history:
  "history (saveState s) =
     (if length (history s) \<ge> 10 then tl (history s) @ [snd (deepCopy (heap s) (deck s))]
      else history s @ [snd (deepCopy (heap s) (deck s))])"
  by (cases "history s") (simp_all add: saveState_def split_beta Let_def)

lemma saveState_prefix: "prefix (heap s) (heap (saveState s))"
  by (simp add: saveState_fields deepCopy_prefix)

lemma saveState_last:
  "history (saveState s) \<noteq> [] \<and> last (history (saveState s)) = snd (deepCopy (heap s) (deck s))"
  by (simp add: saveState_history)

lemma set_tl_subset: "x \<in> set (tl xs) \<Longrightarrow> x \<in> set xs"
  by (cases xs) auto

lemma deckShape_saveState: "deckShape s \<Longrightarrow> deckShape (saveState s)"
  by (auto simp: deckShape_def saveState_fields saveState_history list_all_iff deepCopy_length
           dest: set_tl_subset)

lemma deckShape_undo: "deckShape s \<Longrightarrow> deckShape (undo s)"
  by (auto simp: deckShape_def undo_def list_all_iff dest: in_set_butlastD)

lemma slotAt_Some: "slotAt d p = Some r \<Longrightarrow> p < length d \<and> d ! p = Some r"
  by (auto simp: slotAt_def split: if_splits)

lemma length_splice1: "p < length xs \<Longrightarrow> length (splice1 p xs) = length xs - 1"
  by (auto simp: splice1_def)

lemma cycleCard_Some:
  "slotAt (deck s) p = Some r \<Longrightarrow>
   cycleCard p s = (saveState s)\<lparr>deck :=
      (let d1 = splice1 p (deck s) @ [Some r]
       in if length d1 > 8 then drop (length d1 - 8) d1 else d1)\<rparr>"
  by (simp add: cycleCard_def saveState_fields Let_def)

lemma cycleCard_None: "slotAt (deck s) p = None \<Longrightarrow> cycleCard p s = s"
  by (simp add: cycleCard_def)

lemma deckShape_deck_update:
  "deckShape s \<Longrightarrow> length d = 8 \<Longrightarrow> deckShape (s\<lparr>deck := d\<rparr>)"
  by (simp add: deckShape_def)

lemma deckShape_cycleCard: "deckShape s \<Longrightarrow> deckShape (cycleCard p s)"
proof (cases "slotAt (deck s) p")
  case None
  assume "deckShape s"
  with None show ?thesis by (simp add: cycleCard_None)
next
  case (Some r)
  assume inv: "deckShape s"
  from Some have p: "p < length (deck s)" by (simp add: slotAt_Some)
  from inv have len: "length (deck s) = 8" by (simp add: deckShape_def)
  from inv have "deckShape (saveState s)" by (rule deckShape_saveState)
  then show ?thesis using Some p len
    by (simp add: cycleCard_Some Let_def length_splice1 deckShape_deck_update)
qed

lemma deckShape_other_fields:
  "deckShape (s\<lparr>selectedElixir := e\<rparr>) = deckShape s"
  "deckShape (s\<lparr>heap := h\<rparr>) = deckShape s"
  "deckShape (s\<lparr>cards := c\<rparr>) = deckShape s"
  "deckShape (s\<lparr>notifications := n\<rparr>) = deckShape s"
  "deckShape (s\<lparr>matcherCalls := m\<rparr>) = deckShape s"
  by (simp_all add: deckShape_def)

lemma deckShape_selectCard: "deckShape s \<Longrightarrow> deckShape (selectCard c s)"
proof -
  assume "deckShape s"
  then have s1: "deckShape (saveState s)" by (rule deckShape_saveState)
  then have len: "length (deck (saveState s)) = 8" by (simp add: deckShape_def)
  show ?thesis
  proof (cases "findIndex (sameName (heap (saveState s)) c) (deck (saveState s))")
    case None
    then show ?thesis using s1 len
      by (simp add: selectCard_def Let_def deckShape_other_fields deckShape_deck_update)
  next
    case (Some i)
    then show ?thesis using deckShape_cycleCard [OF s1, of i]
      by (simp add: selectCard_def Let_def deckShape_other_fields)
  qed
qed

lemma deckShape_toggleEvolution: "deckShape s \<Longrightarrow> deckShape (toggleEvolution p s)"
  by (cases "slotAt (deck s) p")
     (simp_all add: toggleEvolution_def writeObject_def deckShape_other_fields deckShape_saveState)

lemma deckShape_selectElixir: "deckShape s \<Longrightarrow> deckShape (selectElixir e b s)"
  by (simp add: selectElixir_def deckShape_other_fields deckShape_saveState)

lemma deckShape_onresult: "deckShape s \<Longrightarrow> deckShape (onresult t s)"
  by (cases "findBestCardMatch (cards s) (trim (drop 4 (toLowerCase t)))")
     (simp_all add: onresult_def processVoiceCommand_def addCardByVoice_def
        showVoiceConfirmation_def Let_def deckShape_other_fields deckShape_selectCard)

lemma deckShape_step: "deckShape s \<Longrightarrow> deckShape (step a s)"
  by (cases a)
     (simp_all add: loadCards_def deckShape_other_fields deckShape_selectElixir
        deckShape_selectCard deckShape_cycleCard deckShape_toggleEvolution deckShape_undo
        deckShape_onresult)

lemma deckShape_constructor: "deckShape constructor"
  by (simp add: deckShape_def constructor_def)

lemma run_snoc: "run (acts @ [a]) s = step a (run acts s)"
  by (simp add: run_def)

lemma deckShape_run: "deckShape s \<Longrightarrow> deckShape (run acts s)"
  by (induction acts rule: rev_induct) (simp_all add: run_snoc deckShape_step, simp add: run_def)

subsection \<open>The history keeps the last ten snapshots\<close>

lemma wellFormed_iff:
  "wellFormed s \<longleftrightarrow> validRefs (heap s) (deck s) \<and> (\<forall>snap \<in> set (history s). validRefs (heap s) snap)"
  by (simp add: wellFormed_def list_all_iff)

lemma wellFormed_saveState: "wellFormed s \<Longrightarrow> wellFormed (saveState s)"
proof -
  assume wf: "wellFormed s"
  have p: "prefix (heap s) (heap (saveState s))" by (rule saveState_prefix)
  have snap: "validRefs (heap (saveState s)) (snd (deepCopy (heap s) (deck s)))"
    by (simp add: saveState_fields deepCopy_valid)
  from wf p have d: "validRefs (heap (saveState s)) (deck (saveState s))"
    by (simp add: wellFormed_iff saveState_fields(1) validRefs_prefix)
  from wf p have old: "\<forall>x \<in> set (history s). validRefs (heap (saveState s)) x"
    by (simp add: wellFormed_iff validRefs_prefix)
  then have "\<forall>x \<in> set (history (saveState s)). validRefs (heap (saveState s)) x"
    using snap by (auto simp: saveState_history dest: set_tl_subset)
  with d show ?thesis by (simp add: wellFormed_iff)
qed

lemma lastN_short: "length xs \<le> n \<Longrightarrow> lastN n xs = xs"
  by (simp add: lastN_def)

lemma lastN_snoc: "0 < n \<Longrightarrow> lastN n (lastN n xs @ [x]) = lastN n (xs @ [x])"
proof (cases "length xs \<le> n")
  case True
  then show ?thesis by (simp add: lastN_short)
next
  case False
  assume "0 < n"
  with False have "Suc (length xs) - (length xs - n + n) + (length xs - n) = Suc (length xs) - n"
    by arith
  then show ?thesis using False by (simp add: lastN_def)
qed

lemma historyView_saveState:
  assumes wf: "wellFormed s" and len: "length (history s) \<le> 10"
  shows "historyView (saveState s) = lastN 10 (historyView s @ [deckView s])"
proof -
  let ?h' = "heap (saveState s)"
  let ?snap = "snd (deepCopy (heap s) (deck s))"
  have p: "prefix (heap s) ?h'" by (rule saveState_prefix)
  from wf have "validRefs (heap s) (deck s)" by (simp add: wellFormed_iff)
  then have new: "map (slotView ?h') ?snap = deckView s"
    by (simp add: saveState_fields deckView_def deepCopy_view)
  from wf p have old: "map (map (slotView ?h')) (history s) = historyView s"
    by (simp add: historyView_def wellFormed_iff slotView_prefix)
  have all: "map (map (slotView ?h')) (history s @ [?snap]) = historyView s @ [deckView s]"
    using new old by simp
  have "history (saveState s) = lastN 10 (history s @ [?snap])"
    using len by (cases "history s") (auto simp: saveState_history lastN_def)
  then have "historyView (saveState s) = map (map (slotView ?h')) (lastN 10 (history s @ [?snap]))"
    by (simp add: historyView_def)
  also have "\<dots> = lastN 10 (map (map (slotView ?h')) (history s @ [?snap]))"
    by (simp add: lastN_def drop_map)
  finally show ?thesis using all by simp
qed

lemma historyBound_saveState: "historyBound s \<Longrightarrow> historyBound (saveState s)"
  by (auto simp: historyBound_def saveState_history)

lemma historyBound_undo: "historyBound s \<Longrightarrow> historyBound (undo s)"
  by (auto simp: historyBound_def undo_def)

lemma historyBound_other_fields:
  "historyBound (s\<lparr>selectedElixir := e\<rparr>) = historyBound s"
  "historyBound (s\<lparr>heap := h\<rparr>) = historyBound s"
  "historyBound (s\<lparr>deck := d\<rparr>) = historyBound s"
  "historyBound (s\<lparr>cards := c\<rparr>) = historyBound s"
  "historyBound (s\<lparr>notifications := n\<rparr>) = historyBound s"
  "historyBound (s\<lparr>matcherCalls := m\<rparr>) = historyBound s"
  by (simp_all add: historyBound_def)

lemma historyBound_cycleCard: "historyBound s \<Longrightarrow> historyBound (cycleCard p s)"
  by (cases "slotAt (deck s) p")
     (simp_all add: cycleCard_None cycleCard_Some historyBound_other_fields historyBound_saveState)

lemma historyBound_selectCard: "historyBound s \<Longrightarrow> historyBound (selectCard c s)"
  by (cases "findIndex (sameName (heap (saveState s)) c) (deck (saveState s))")
     (simp_all add: selectCard_def Let_def historyBound_other_fields historyBound_saveState
        historyBound_cycleCard)

lemma historyBound_toggleEvolution: "historyBound s \<Longrightarrow> historyBound (toggleEvolution p s)"
  by (cases "slotAt (deck s) p")
     (simp_all add: toggleEvolution_def writeObject_def historyBound_other_fields
        historyBound_saveState)

lemma historyBound_onresult: "historyBound s \<Longrightarrow> historyBound (onresult t s)"
  by (cases "findBestCardMatch (cards s) (trim (drop 4 (toLowerCase t)))")
     (simp_all add: onresult_def processVoiceCommand_def addCardByVoice_def
        showVoiceConfirmation_def Let_def historyBound_other_fields historyBound_selectCard)

lemma historyBound_step: "historyBound s \<Longrightarrow> historyBound (step a s)"
  by (cases a)
     (simp_all add: loadCards_def selectElixir_def historyBound_other_fields
        historyBound_saveState historyBound_selectCard historyBound_cycleCard
        historyBound_toggleEvolution historyBound_undo historyBound_onresult)

lemma historyBound_run: "historyBound (run acts constructor)"
proof (induction acts rule: rev_induct)
  case Nil
  show ?case by (simp add: run_def historyBound_def constructor_def)
next
  case (snoc a acts)
  then show ?case by (simp add: run_snoc historyBound_step)
qed

lemma length_historyView: "length (historyView s) = length (history s)"
  by (simp add: historyView_def)

lemma pushes_lastN:
  "pushes s vs t \<Longrightarrow> length (history s) \<le> 10 \<Longrightarrow>
   length (history t) \<le> 10 \<and> historyView t = lastN 10 (historyView s @ vs)"
proof (induction rule: pushes.induct)
  case (pushes_start s)
  then show ?case by (simp add: lastN_short length_historyView)
next
  case (pushes_push s vs t)
  then have len: "length (history t) \<le> 10"
    and hv: "historyView t = lastN 10 (historyView s @ vs)" by simp_all
  from len have "length (history (saveState t)) \<le> 10"
    using historyBound_saveState [of t] by (simp add: historyBound_def)
  moreover have "historyView (saveState t) = lastN 10 (historyView s @ vs @ [deckView t])"
    using historyView_saveState [OF \<open>wellFormed t\<close> len] hv lastN_snoc [of 10 "historyView s @ vs" "deckView t"]
    by simp
  ultimately show ?case by simp
next
  case (pushes_change s vs t t')
  then have "length (history t) \<le> 10"
    and hv: "historyView t = lastN 10 (historyView s @ vs)" by simp_all
  moreover have "length (history t') = length (history t)"
    using pushes_change.hyps(2) length_historyView [of t] length_historyView [of t'] by simp
  ultimately show ?case using pushes_change.hyps(2) by simp
qed

subsection \<open>Writes in place, cycling and undo\<close>

lemma writeObject_fields:
  "deck (writeObject r f s) = deck s"
  "history (writeObject r f s) = history s"
  "length (heap (writeObject r f s)) = length (heap s)"
  "i \<noteq> r \<Longrightarrow> heap (writeObject r f s) ! i = heap s ! i"
  by (simp_all add: writeObject_def)

lemma slotAt_member: "slotAt d p = Some r \<Longrightarrow> Some r \<in> set d"
  by (metis slotAt_Some nth_mem)

lemma mutateSlot_frame:
  "deck (mutateSlot q f s) = deck s \<and> history (mutateSlot q f s) = history s
   \<and> length (heap (mutateSlot q f s)) = length (heap s)
   \<and> (\<forall>i. Some i \<notin> set (deck s) \<longrightarrow> heap (mutateSlot q f s) ! i = heap s ! i)"
proof (cases "slotAt (deck s) q")
  case None
  then show ?thesis by (simp add: mutateSlot_def)
next
  case (Some r)
  then have "Some r \<in> set (deck s)" by (rule slotAt_member)
  then have "\<forall>i. Some i \<notin> set (deck s) \<longrightarrow> i \<noteq> r" by auto
  then show ?thesis using Some by (simp add: mutateSlot_def writeObject_fields)
qed

lemma mutateSlots_frame:
  "deck (mutateSlots ms s) = deck s \<and> history (mutateSlots ms s) = history s
   \<and> length (heap (mutateSlots ms s)) = length (heap s)
   \<and> (\<forall>i. Some i \<notin> set (deck s) \<longrightarrow> heap (mutateSlots ms s) ! i = heap s ! i)"
proof (induction ms s rule: mutateSlots.induct)
  case (1 s)
  show ?case by simp
next
  case (2 q f ms s)
  then show ?case using mutateSlot_frame [of q f s] by simp
qed

lemma set_splice1: "set (splice1 p xs) \<subseteq> set xs"
  by (auto simp: splice1_def dest: in_set_takeD in_set_dropD)

lemma cycleCard_deck_subset:
  "set (deck (cycleCard p s)) \<subseteq> set (deck s)"
proof (cases "slotAt (deck s) p")
  case None
  then show ?thesis by (simp add: cycleCard_None)
next
  case (Some r)
  then have "Some r \<in> set (deck s)" by (rule slotAt_member)
  then show ?thesis using Some set_splice1 [of p "deck s"]
    by (auto simp: cycleCard_Some Let_def dest: in_set_dropD)
qed

lemma cycleCard_history:
  "slotAt (deck s) p = Some r \<Longrightarrow> history (cycleCard p s) = history (saveState s)"
  "slotAt (deck s) p = Some r \<Longrightarrow> heap (cycleCard p s) = heap (saveState s)"
  by (simp_all add: cycleCard_Some)

lemma validRefs_member: "validRefs h d \<Longrightarrow> Some r \<in> set d \<Longrightarrow> r < length h"
  by (auto simp: validRefs_iff validSlot_def)

lemma cycle_undo_view:
  assumes valid: "validRefs (heap s) (deck s)"
    and occupied: "slotAt (deck s) p = Some r"
  shows "deckView (undo (mutateSlots ms (cycleCard p s))) = deckView s"
proof -
  let ?c = "cycleCard p s"
  let ?m = "mutateSlots ms ?c"
  let ?snap = "snd (deepCopy (heap s) (deck s))"
  have frame: "deck ?m = deck ?c" "history ?m = history ?c"
    "\<forall>i. Some i \<notin> set (deck ?c) \<longrightarrow> heap ?m ! i = heap ?c ! i"
    using mutateSlots_frame [of ms ?c] by simp_all
  have hist: "history ?m \<noteq> []" "last (history ?m) = ?snap"
    using frame(2) occupied saveState_last [of s] by (simp_all add: cycleCard_history)
  then have undo: "deck (undo ?m) = ?snap" "heap (undo ?m) = heap ?m"
    by (simp_all add: undo_def)
  have untouched: "heap ?m ! i = heap (saveState s) ! i" if "Some i \<in> set ?snap" for i
  proof -
    from that have "length (heap s) \<le> i" by (simp add: deepCopy_fresh)
    moreover have "j < length (heap s)" if "Some j \<in> set (deck ?c)" for j
      using that cycleCard_deck_subset [of p s] valid by (auto dest: validRefs_member)
    ultimately have "Some i \<notin> set (deck ?c)" by fastforce
    then show ?thesis using frame(3) occupied by (simp add: cycleCard_history)
  qed
  have "map (slotView (heap ?m)) ?snap = map (slotView (heap (saveState s))) ?snap"
  proof (rule map_cong [OF refl])
    fix sl assume member: "sl \<in> set ?snap"
    show "slotView (heap ?m) sl = slotView (heap (saveState s)) sl"
    proof (cases sl)
      case None
      then show ?thesis by (simp add: slotView_simps)
    next
      case (Some i)
      with member have "Some i \<in> set ?snap" by simp
      then have "heap ?m ! i = heap (saveState s) ! i" by (rule untouched)
      then show ?thesis using Some by (simp add: slotView_simps)
    qed
  qed
  also have "\<dots> = map (slotView (heap s)) (deck s)"
    using valid by (simp add: saveState_fields deepCopy_view)
  finally show ?thesis using undo by (simp add: deckView_def)
qed

subsection \<open>No action leaves a dangling reference\<close>

lemma validRefs_mono: "length h \<le> length h' \<Longrightarrow> validRefs h d \<Longrightarrow> validRefs h' d"
  by (auto simp: validRefs_iff validSlot_def split: option.splits)

lemma validRefs_subset: "set d \<subseteq> set e \<Longrightarrow> validRefs h e \<Longrightarrow> validRefs h d"
  by (auto simp: validRefs_iff)

lemma wellFormed_heap_grow:
  "wellFormed s \<Longrightarrow> length (heap s) \<le> length h \<Longrightarrow> wellFormed (s\<lparr>heap := h\<rparr>)"
  by (auto simp: wellFormed_iff validRefs_mono)

lemma wellFormed_other_fields:
  "wellFormed (s\<lparr>selectedElixir := e\<rparr>) = wellFormed s"
  "wellFormed (s\<lparr>cards := c\<rparr>) = wellFormed s"
  "wellFormed (s\<lparr>notifications := n\<rparr>) = wellFormed s"
  "wellFormed (s\<lparr>matcherCalls := m\<rparr>) = wellFormed s"
  by (simp_all add: wellFormed_def)

lemma wellFormed_deck_update:
  "wellFormed s \<Longrightarrow> validRefs (heap s) d \<Longrightarrow> wellFormed (s\<lparr>deck := d\<rparr>)"
  by (simp add: wellFormed_def)

lemma wellFormed_undo: "wellFormed s \<Longrightarrow> wellFormed (undo s)"
  by (auto simp: wellFormed_iff undo_def dest: in_set_butlastD)

lemma wellFormed_cycleCard: "wellFormed s \<Longrightarrow> wellFormed (cycleCard p s)"
proof (cases "slotAt (deck s) p")
  case None
  assume "wellFormed s"
  with None show ?thesis by (simp add: cycleCard_None)
next
  case (Some r)
  assume "wellFormed s"
  then have wf1: "wellFormed (saveState s)" by (rule wellFormed_saveState)
  then have "validRefs (heap (saveState s)) (deck s)"
    by (simp add: wellFormed_iff saveState_fields(1))
  with cycleCard_deck_subset [of p s]
  have "validRefs (heap (saveState s)) (deck (cycleCard p s))" by (rule validRefs_subset)
  then have "wellFormed ((saveState s)\<lparr>deck := deck (cycleCard p s)\<rparr>)"
    using wf1 by (simp add: wellFormed_deck_update)
  then show ?thesis using Some by (simp add: cycleCard_Some)
qed

lemma wellFormed_selectCard: "wellFormed s \<Longrightarrow> wellFormed (selectCard c s)"
proof -
  assume "wellFormed s"
  then have wf1: "wellFormed (saveState s)" by (rule wellFormed_saveState)
  show ?thesis
  proof (cases "findIndex (sameName (heap (saveState s)) c) (deck (saveState s))")
    case (Some i)
    then show ?thesis using wellFormed_cycleCard [OF wf1, of i]
      by (simp add: selectCard_def Let_def wellFormed_other_fields)
  next
    case None
    let ?h = "heap (saveState s) @ [newSlotCard c]"
    let ?d = "tl (deck (saveState s)) @ [Some (length (heap (saveState s)))]"
    from wf1 have grown: "wellFormed ((saveState s)\<lparr>heap := ?h\<rparr>)"
      by (rule wellFormed_heap_grow) simp
    have "set (tl (deck (saveState s))) \<subseteq> set (deck (saveState s))"
      by (auto dest: set_tl_subset)
    moreover from grown have "validRefs ?h (deck (saveState s))"
      by (simp add: wellFormed_iff)
    ultimately have "validRefs ?h (tl (deck (saveState s)))"
      by (rule validRefs_subset)
    then have "validRefs ?h ?d" by (simp add: validRefs_append validRefs_Cons validRefs_Nil validSlot_def)
    with grown have "wellFormed ((saveState s)\<lparr>heap := ?h\<rparr>\<lparr>deck := ?d\<rparr>)"
      by (simp add: wellFormed_deck_update)
    then show ?thesis using None
      by (simp add: selectCard_def Let_def wellFormed_other_fields)
  qed
qed

lemma wellFormed_toggleEvolution: "wellFormed s \<Longrightarrow> wellFormed (toggleEvolution p s)"
proof (cases "slotAt (deck s) p")
  case None
  assume "wellFormed s"
  with None show ?thesis by (simp add: toggleEvolution_def)
next
  case (Some r)
  assume "wellFormed s"
  then have "wellFormed (saveState s)" by (rule wellFormed_saveState)
  then have "wellFormed (writeObject r (\<lambda>card. card\<lparr>isEvo := \<not> isEvo card\<rparr>) (saveState s))"
    unfolding writeObject_def by (rule wellFormed_heap_grow) simp
  then show ?thesis using Some by (simp add: toggleEvolution_def)
qed

lemma wellFormed_onresult: "wellFormed s \<Longrightarrow> wellFormed (onresult t s)"
  by (cases "findBestCardMatch (cards s) (trim (drop 4 (toLowerCase t)))")
     (simp_all add: onresult_def processVoiceCommand_def addCardByVoice_def
        showVoiceConfirmation_def Let_def wellFormed_other_fields wellFormed_selectCard)

lemma wellFormed_step: "wellFormed s \<Longrightarrow> wellFormed (step a s)"
  by (cases a)
     (simp_all add: loadCards_def selectElixir_def wellFormed_other_fields
        wellFormed_saveState wellFormed_selectCard wellFormed_cycleCard
        wellFormed_toggleEvolution wellFormed_undo wellFormed_onresult)

lemma wellFormed_run: "wellFormed (run acts constructor)"
proof (induction acts rule: rev_induct)
  case Nil
  show ?case by (simp add: run_def wellFormed_def validRefs_def constructor_def validSlot_def list_all_iff)
next
  case (snoc a acts)
  then show ?case by (simp add: run_snoc wellFormed_step)
qed

subsection \<open>Selecting a card that is in the deck\<close>


lemma findIndex_Some: "findIndex P xs = Some i \<Longrightarrow> i < length xs \<and> P (xs ! i)"
proof (induction xs arbitrary: i)
  case Nil
  then show ?case by simp
next
  case (Cons x xs)
  then show ?case by (cases "P x") auto
qed

lemma findIndex_first: "findIndex P xs = Some i \<Longrightarrow> j < i \<Longrightarrow> \<not> P (xs ! j)"
proof (induction xs arbitrary: i j)
  case Nil
  then show ?case by simp
next
  case (Cons x xs)
  then show ?case by (cases "P x"; cases j) auto
qed




lemma deckView_saveState:
  "validRefs (heap s) (deck s) \<Longrightarrow> deckView (saveState s) = deckView s"
  using saveState_prefix [of s] by (simp add: deckView_def saveState_fields(1) slotView_prefix)


lemma cycleCard_rotated:
  assumes "slotAt (deck s) p = Some r" and "length (deck s) \<le> 8"
  shows "cycleCard p s = (saveState s)\<lparr>deck := rotated p (deck s)\<rparr>"
proof -
  from assms(1) have "p < length (deck s)" and "deck s ! p = Some r"
    by (simp_all add: slotAt_Some)
  then show ?thesis using assms
    by (simp add: cycleCard_Some Let_def rotated_def length_splice1)
qed

lemma mset_rotated: "p < length d \<Longrightarrow> mset (rotated p d) = mset d"
proof -
  assume "p < length d"
  then have "d = take p d @ d ! p # drop (Suc p) d" by (rule id_take_nth_drop)
  then have "mset d = mset (take p d @ d ! p # drop (Suc p) d)" by simp
  then show ?thesis by (simp add: rotated_def splice1_def)
qed


lemma found_occupied:
  "findIndex (sameName h c) d = Some p \<Longrightarrow>
   p < length d \<and> (\<exists>r. slotAt d p = Some r \<and> name (h ! r) = name c)"
  by (drule findIndex_Some) (auto simp: sameName_def slotAt_def split: option.splits)




subsection \<open>Strings and the matcher\<close>

lemma toLowerChar_idem: "toLowerChar (toLowerChar c) = toLowerChar c"
  by (auto simp: toLowerChar_def Let_def)

lemma toLowerCase_idem: "toLowerCase (toLowerCase s) = toLowerCase s"
  by (simp add: toLowerCase_def toLowerChar_idem)

lemma isWhiteSpace_toLowerChar: "isWhiteSpace (toLowerChar c) = isWhiteSpace c"
  by (auto simp: toLowerChar_def isWhiteSpace_def Let_def)

lemma toLowerCase_dropWhile:
  "toLowerCase (dropWhile isWhiteSpace s) = dropWhile isWhiteSpace (toLowerCase s)"
  by (induction s) (auto simp: toLowerCase_def isWhiteSpace_toLowerChar)

lemma toLowerCase_rev: "toLowerCase (rev s) = rev (toLowerCase s)"
  by (simp add: toLowerCase_def rev_map)

lemma toLowerCase_trim: "toLowerCase (trim s) = trim (toLowerCase s)"
  by (simp add: trim_def toLowerCase_dropWhile toLowerCase_rev)

lemma scanCards_find: "scanCards hit cs = find hit cs"
  by (induction cs) auto

lemma find_append:
  "find P (xs @ ys) = (case find P xs of Some x \<Rightarrow> Some x | None \<Rightarrow> find P ys)"
  by (induction xs) auto

lemma scanCatalog_find: "scanCatalog hit cat = find hit (catalogCards cat)"
  by (induction hit cat rule: scanCatalog.induct)
     (simp_all add: catalogCards_def scanCards_find find_append split: option.splits)

lemma scanAlternatives_list_ex: "scanAlternatives hit alts = list_ex hit alts"
  by (induction alts) auto

lemma anyAlternative_list_ex: "anyAlternative hit c = list_ex hit (alternativesOf c)"
  by (cases "alternatives c") (simp_all add: anyAlternative_def alternativesOf_def scanAlternatives_list_ex)

lemma findBestCardMatch_cascade:
  "findBestCardMatch cat spokenName = findBestMatch_trimmed cat spokenName"
proof -
  let ?spoken = "trim (toLowerCase spokenName)"
  let ?t = "trim spokenName"
  have low: "toLowerCase ?t = ?spoken" by (rule toLowerCase_trim)
  have e: "(toLowerCase a = ?spoken) = equalsIgnoreCase ?t a" for a
    by (auto simp: equalsIgnoreCase_def low)
  have i: "(str_includes (toLowerCase a) ?spoken \<or> str_includes ?spoken (toLowerCase a))
           = containsIgnoreCase ?t a" for a
    by (auto simp: containsIgnoreCase_def eitherContains_def str_includes_def low)
  have t1: "(\<lambda>c. toLowerCase (name c) = ?spoken) = tier1 ?t"
    by (simp add: tier1_def e fun_eq_iff)
  have t2: "anyAlternative (\<lambda>alt. toLowerCase alt = ?spoken) = tier2 ?t"
    by (simp add: tier2_def e anyAlternative_list_ex fun_eq_iff)
  have t3: "(\<lambda>c. str_includes (toLowerCase (name c)) ?spoken
                 \<or> str_includes ?spoken (toLowerCase (name c))) = tier3 ?t"
    by (simp add: tier3_def i fun_eq_iff)
  have t4: "anyAlternative (\<lambda>alt. str_includes (toLowerCase alt) ?spoken
                 \<or> str_includes ?spoken (toLowerCase alt)) = tier4 ?t"
    by (simp add: tier4_def i anyAlternative_list_ex fun_eq_iff)
  have t5: "(\<lambda>c. let cleanCardName = trim (stripStopwords (toLowerCase (name c)))
                 in str_includes cleanCardName (trim (stripStopwords ?spoken))
                    \<or> str_includes (trim (stripStopwords ?spoken)) cleanCardName) = tier5_trimmed ?t"
    by (auto simp: tier5_trimmed_def eitherContains_def str_includes_def low Let_def)
  show ?thesis
    unfolding findBestCardMatch_def findBestMatch_trimmed_def Let_def
    unfolding t1 t2 t3 t4 t5 [unfolded Let_def]
    by (simp add: scanCatalog_find split: option.splits)
qed

lemma find_Some_member: "find P xs = Some x \<Longrightarrow> x \<in> set xs \<and> P x"
  by (induction xs) (auto split: if_splits)

lemma find_None_all: "find P xs = None \<longleftrightarrow> (\<forall>x \<in> set xs. \<not> P x)"
  by (induction xs) auto

lemma firstHit_None: "firstHit tiers cs = None \<longleftrightarrow> (\<forall>t \<in> set tiers. \<forall>c \<in> set cs. \<not> t c)"
  by (induction tiers) (auto simp: find_None_all split: option.splits dest: find_Some_member)

lemma tier1_tier3: "tier1 sp c \<Longrightarrow> tier3 sp c"
  by (simp add: tier1_def tier3_def equalsIgnoreCase_def containsIgnoreCase_def eitherContains_def)

lemma tier2_tier4: "tier2 sp c \<Longrightarrow> tier4 sp c"
  by (auto simp: tier2_def tier4_def equalsIgnoreCase_def containsIgnoreCase_def
        eitherContains_def list_ex_iff)

lemma cascade_None:
  "findBestCardMatch cat sp = None \<longleftrightarrow>
     (\<forall>c \<in> set (catalogCards cat).
        \<not> tier3 (trim sp) c \<and> \<not> tier4 (trim sp) c \<and> \<not> tier5_trimmed (trim sp) c)"
  unfolding findBestCardMatch_cascade findBestMatch_trimmed_def Let_def firstHit_None
  by (auto dest: tier1_tier3 tier2_tier4)

lemma zzz_normal:
  "trim ''zzz-not-a-card'' = ''zzz-not-a-card''"
  "trim (stripStopwords (toLowerCase ''zzz-not-a-card'')) = ''zzz-not--card''"
  by code_simp+

lemma the_knight_normal:
  "trim ''the knight'' = ''the knight''"
  "toLowerCase ''the knight'' = ''the knight''"
  "toLowerCase ''Knight'' = ''knight''"
  "toLowerCase ''Another Knight'' = ''another knight''"
  "sublist ''knight'' ''the knight''"
  "\<not> eitherContains ''the knight'' ''another knight''"
  by code_simp+

lemma the_knight_strip:
  "stripStopwords ''the knight'' = '' knight''"
  "stripStopwords ''another knight'' = ''another knight''"
  by code_simp+

lemma the_knight_result:
  assumes member: "k \<in> set (catalogCards cat)" and named: "name k = ''Knight''"
  shows "\<exists>c. findBestCardMatch cat ''the knight'' = Some c \<and> c \<in> set (catalogCards cat)
            \<and> (name c = ''Another Knight'' \<longrightarrow> tier2 ''the knight'' c)"
proof -
  let ?T = "''the knight''"
  let ?cs = "catalogCards cat"
  have another: "\<not> tier1 ?T c \<and> \<not> tier3 ?T c" if "name c = ''Another Knight''" for c
    using that
    by (simp add: tier1_def tier3_def equalsIgnoreCase_def containsIgnoreCase_def
          the_knight_normal)
  have "tier3 ?T k"
    using named by (simp add: tier3_def containsIgnoreCase_def eitherContains_def the_knight_normal)
  with member have hit3: "find (tier3 ?T) ?cs \<noteq> None" by (auto simp: find_None_all)
  have result: "findBestCardMatch cat ?T =
      firstHit [tier1 ?T, tier2 ?T, tier3 ?T, tier4 ?T, tier5_trimmed ?T] ?cs"
    by (simp only: findBestCardMatch_cascade findBestMatch_trimmed_def Let_def the_knight_normal)
  show ?thesis
  proof (cases "find (tier1 ?T) ?cs")
    case (Some c)
    then have "c \<in> set ?cs \<and> tier1 ?T c" by (rule find_Some_member)
    then show ?thesis using Some another [of c] by (auto simp: result)
  next
    case none1: None
    show ?thesis
    proof (cases "find (tier2 ?T) ?cs")
      case (Some c)
      then have "c \<in> set ?cs \<and> tier2 ?T c" by (rule find_Some_member)
      then show ?thesis using Some none1 by (auto simp: result)
    next
      case none2: None
      from hit3 obtain c where some3: "find (tier3 ?T) ?cs = Some c" by auto
      then have "c \<in> set ?cs \<and> tier3 ?T c" by (rule find_Some_member)
      then show ?thesis using some3 none1 none2 another [of c] by (auto simp: result)
    qed
  qed
qed

lemma empty_normal:
  "toLowerCase ''add '' = ''add ''"
  "trim [] = []"
  "toLowerCase [] = []"
  by code_simp+

lemma toLowerCase_Nil_iff: "toLowerCase s = [] \<longleftrightarrow> s = []"
  by (simp add: toLowerCase_def)

lemma tiers_empty:
  "tier1 [] c \<longleftrightarrow> name c = []"
  "tier2 [] c \<longleftrightarrow> [] \<in> set (alternativesOf c)"
  "tier3 [] c"
  by (auto simp: tier1_def tier2_def tier3_def equalsIgnoreCase_def containsIgnoreCase_def
        eitherContains_def list_ex_iff toLowerCase_def)

lemma empty_result:
  "findBestCardMatch cat [] =
     firstHit [tier1 [], tier2 [], tier3 [], tier4 [], tier5_trimmed []] (catalogCards cat)"
  by (simp only: findBestCardMatch_cascade findBestMatch_trimmed_def Let_def empty_normal)

lemma empty_found:
  assumes "catalogCards cat = first # others"
  shows "findBestCardMatch cat [] \<noteq> None"
  using assms unfolding empty_result firstHit_None by (auto simp: tiers_empty)

lemma empty_first:
  assumes cards: "catalogCards cat = first # others"
    and proper: "\<forall>c \<in> set (first # others). name c \<noteq> [] \<and> [] \<notin> set (alternativesOf c)"
  shows "findBestCardMatch cat [] = Some first"
proof -
  from proper have "find (tier1 []) (first # others) = None"
    unfolding find_None_all by (simp add: tiers_empty)
  moreover from proper have "find (tier2 []) (first # others) = None"
    unfolding find_None_all by (simp add: tiers_empty)
  moreover have "find (tier3 []) (first # others) = Some first" by (simp add: tiers_empty)
  ultimately show ?thesis by (simp add: empty_result cards)
qed

lemma onresult_add_nothing:
  "onresult ''add '' s = addCardByVoice [] s"
  by (simp add: onresult_def processVoiceCommand_def startsWith_def empty_normal)

lemma matchStopword_whole_word:
  assumes "matchStopword prevWord rest = Some l"
  shows "\<not> prevWord \<and> take l rest \<in> {''the'', ''a'', ''an''}
       \<and> (case drop l rest of [] \<Rightarrow> True | c # _ \<Rightarrow> \<not> isWordChar c)"
proof -
  from assms have boundary: "wordBoundary prevWord rest"
    by (simp add: matchStopword_def split: if_splits)
  from assms have cases: "(l = 3 \<and> prefix ''the'' rest) \<or> (l = 1 \<and> prefix ''a'' rest)
      \<or> (l = 2 \<and> prefix ''an'' rest)"
    by (auto simp: matchStopword_def split: if_splits)
  from assms have closing: "wordBoundary True (drop l rest)"
    by (auto simp: matchStopword_def split: if_splits)
  have word: "isWordChar CHR ''t''" "isWordChar CHR ''a''" by code_simp+
  from cases word have "case rest of [] \<Rightarrow> False | c # _ \<Rightarrow> isWordChar c"
    by (auto simp: prefix_def)
  with boundary have "\<not> prevWord" by (simp add: wordBoundary_def)
  moreover from cases have "take l rest \<in> {''the'', ''a'', ''an''}"
    by (auto simp: prefix_def)
  moreover from closing have "case drop l rest of [] \<Rightarrow> True | c # _ \<Rightarrow> \<not> isWordChar c"
    by (simp add: wordBoundary_def split: list.splits)
  ultimately show ?thesis by blast
qed

lemma find_only:
  assumes "find P xs = Some x" and "\<And>y. y \<in> set xs \<Longrightarrow> P y \<Longrightarrow> y = k"
  shows "x = k"
  using find_Some_member [OF assms(1)] assms(2) by blast

lemma the_knight_only:
  assumes member: "k \<in> set (catalogCards cat)" and named: "name k = ''Knight''"
    and others: "\<forall>c \<in> set (catalogCards cat). c \<noteq> k \<longrightarrow>
                   \<not> tier2 ''the knight'' c \<and> \<not> tier3 ''the knight'' c"
  shows "findBestCardMatch cat ''the knight'' = Some k"
proof -
  let ?T = "''the knight''"
  let ?cs = "catalogCards cat"
  have result: "findBestCardMatch cat ?T =
      firstHit [tier1 ?T, tier2 ?T, tier3 ?T, tier4 ?T, tier5_trimmed ?T] ?cs"
    by (simp only: findBestCardMatch_cascade findBestMatch_trimmed_def Let_def the_knight_normal)
  have k3: "tier3 ?T k"
    using named by (simp add: tier3_def containsIgnoreCase_def eitherContains_def the_knight_normal)
  have k1: "\<not> tier1 ?T k"
    using named by (simp add: tier1_def equalsIgnoreCase_def the_knight_normal)
  have none1: "find (tier1 ?T) ?cs = None"
    unfolding find_None_all using others k1 by (auto dest: tier1_tier3)
  have only2: "y = k" if "y \<in> set ?cs" "tier2 ?T y" for y using that others by auto
  have only3: "y = k" if "y \<in> set ?cs" "tier3 ?T y" for y using that others by auto
  show ?thesis
  proof (cases "find (tier2 ?T) ?cs")
    case (Some c)
    then have "c = k" using only2 by (rule find_only)
    with Some none1 show ?thesis by (simp add: result)
  next
    case None
    from k3 member have "find (tier3 ?T) ?cs \<noteq> None" by (auto simp: find_None_all)
    then obtain c where some3: "find (tier3 ?T) ?cs = Some c" by auto
    then have "c = k" using only3 by (rule find_only)
    with some3 None none1 show ?thesis by (simp add: result)
  qed
qed

lemma empty_cascade:
  "findBestCardMatch cat [] =
     (case find (\<lambda>c. name c = []) (catalogCards cat) of
        Some c \<Rightarrow> Some c
      | None \<Rightarrow>
        (case find (\<lambda>c. [] \<in> set (alternativesOf c)) (catalogCards cat) of
           Some c \<Rightarrow> Some c
         | None \<Rightarrow> (case catalogCards cat of [] \<Rightarrow> None | c # _ \<Rightarrow> Some c)))"
proof -
  have t1: "tier1 [] = (\<lambda>c. name c = [])" by (simp add: fun_eq_iff tiers_empty)
  have t2: "tier2 [] = (\<lambda>c. [] \<in> set (alternativesOf c))" by (simp add: fun_eq_iff tiers_empty)
  have t3: "find (tier3 []) cs = (case cs of [] \<Rightarrow> None | c # _ \<Rightarrow> Some c)" for cs
    by (cases cs) (simp_all add: tiers_empty)
  have "firstHit [tier3 [], tier4 [], tier5_trimmed []] cs
      = (case cs of [] \<Rightarrow> None | c # _ \<Rightarrow> Some c)" for cs
    by (cases cs) (simp_all add: tiers_empty)
  then show ?thesis
    by (simp add: empty_result t1 t2 split: option.splits)
qed

subsection \<open>Stripping removes whole words\<close>

lemma concat_runs: "concat (runs s) = s"
  by (induction s rule: runs.induct) auto

lemma word_letters: "isWordChar CHR ''t''" "isWordChar CHR ''h''" "isWordChar CHR ''e''"
  "isWordChar CHR ''a''" "isWordChar CHR ''n''"
  by code_simp+

lemma replace_inside_word:
  "\<forall>c \<in> set w. isWordChar c \<Longrightarrow> replaceStopwords True (w @ r) = w @ replaceStopwords True r"
  by (induction w) (auto simp: matchStopword_def wordBoundary_def)

lemma replace_gap_char:
  assumes "\<not> isWordChar c"
  shows "replaceStopwords prevWord (c # cs) = c # replaceStopwords False cs"
proof -
  from assms have "c \<noteq> CHR ''t''" "c \<noteq> CHR ''a''" using word_letters by auto
  then have "matchStopword prevWord (c # cs) = None"
    by (simp add: matchStopword_def)
  with assms show ?thesis by simp
qed

lemma replace_gap:
  "\<forall>c \<in> set g. \<not> isWordChar c \<Longrightarrow> g \<noteq> [] \<Longrightarrow>
   replaceStopwords prevWord (g @ r) = g @ replaceStopwords False r"
proof (induction g arbitrary: prevWord)
  case Nil
  then show ?case by simp
next
  case (Cons c g)
  show ?case
  proof (cases "g = []")
    case True
    with Cons.prems show ?thesis
      by (simp add: replace_gap_char del: replaceStopwords.simps)
  next
    case False
    with Cons show ?thesis
      by (simp add: replace_gap_char del: replaceStopwords.simps)
  qed
qed

lemma replace_after_word: "gapAhead r \<Longrightarrow> replaceStopwords True r = replaceStopwords False r"
  by (cases r) (simp_all add: gapAhead_def replace_gap_char del: replaceStopwords.simps(2))

lemma boundary_after: "wordBoundary True r = gapAhead r"
  by (cases r) (simp_all add: wordBoundary_def gapAhead_def)

lemma gapAhead_dropWhile: "gapAhead (dropWhile isWordChar s)"
  by (induction s) (auto simp: gapAhead_def)

lemma takeWhile_gap: "gapAhead r \<Longrightarrow> takeWhile isWordChar r = []"
  by (cases r) (simp_all add: gapAhead_def)

lemma whole_word_iff:
  assumes "\<forall>c \<in> set k. isWordChar c" and n: "length k = n"
  shows "(prefix k s \<and> gapAhead (drop n s)) = (takeWhile isWordChar s = k)"
  unfolding n [symmetric]
proof
  assume "prefix k s \<and> gapAhead (drop (length k) s)"
  then obtain rest where s: "s = k @ rest" and gap: "gapAhead rest"
    by (auto simp: prefix_def)
  from assms have "takeWhile isWordChar (k @ rest) = k @ takeWhile isWordChar rest"
    by (simp add: takeWhile_append2)
  with s gap show "takeWhile isWordChar s = k" by (simp add: takeWhile_gap)
next
  assume k: "takeWhile isWordChar s = k"
  have "s = takeWhile isWordChar s @ dropWhile isWordChar s" by simp
  with k have s: "s = k @ dropWhile isWordChar s" by simp
  then have "prefix k s" by (metis prefixI)
  moreover from s have "drop (length k) s = dropWhile isWordChar s"
    by (metis append_eq_conv_conj)
  ultimately show "prefix k s \<and> gapAhead (drop (length k) s)"
    by (simp add: gapAhead_dropWhile)
qed

lemma match_word:
  assumes "isWordChar c"
  shows "matchStopword False (c # cs) =
     (if isStopword (takeWhile isWordChar (c # cs))
      then Some (length (takeWhile isWordChar (c # cs))) else None)"
proof -
  let ?s = "c # cs"
  let ?w = "takeWhile isWordChar ?s"
  have the: "(prefix ''the'' ?s \<and> gapAhead (drop 3 ?s)) = (?w = ''the'')"
    by (rule whole_word_iff) (simp_all add: word_letters)
  have a: "(prefix ''a'' ?s \<and> gapAhead (drop 1 ?s)) = (?w = ''a'')"
    by (rule whole_word_iff) (simp_all add: word_letters)
  have an: "(prefix ''an'' ?s \<and> gapAhead (drop 2 ?s)) = (?w = ''an'')"
    by (rule whole_word_iff) (simp_all add: word_letters)
  have "matchStopword False ?s =
      (if ?w = ''the'' then Some 3 else if ?w = ''a'' then Some 1
       else if ?w = ''an'' then Some 2 else None)"
    unfolding matchStopword_def boundary_after the a an
    using assms by (simp add: wordBoundary_def)
  then show ?thesis by (auto simp: isStopword_def)
qed

lemma replace_word:
  assumes "isWordChar c"
  shows "replaceStopwords False (c # cs) =
     (if isStopword (takeWhile isWordChar (c # cs)) then [] else takeWhile isWordChar (c # cs))
     @ replaceStopwords False (dropWhile isWordChar (c # cs))"
proof -
  let ?s = "c # cs"
  let ?w = "takeWhile isWordChar ?s"
  let ?r = "dropWhile isWordChar ?s"
  have after: "replaceStopwords True ?r = replaceStopwords False ?r"
    using gapAhead_dropWhile by (rule replace_after_word)
  show ?thesis
  proof (cases "isStopword ?w")
    case True
    have "?s = ?w @ ?r" by simp
    then have "drop (length ?w) ?s = ?r" by (metis append_eq_conv_conj)
    with True after show ?thesis using match_word [OF assms, of cs] by simp
  next
    case False
    have inside: "replaceStopwords True (takeWhile isWordChar cs @ dropWhile isWordChar cs)
        = takeWhile isWordChar cs @ replaceStopwords True (dropWhile isWordChar cs)"
      by (rule replace_inside_word) (auto dest: set_takeWhileD)
    from False have "replaceStopwords False ?s = c # replaceStopwords True cs"
      using match_word [OF assms, of cs] assms by simp
    with inside after show ?thesis using assms False by simp
  qed
qed

lemma strip_runs: "replaceStopwords False s = concat (filter (\<lambda>w. \<not> isStopword w) (runs s))"
proof (induction s rule: runs.induct)
  case 1
  show ?case by simp
next
  case (2 c cs)
  show ?case
  proof (cases "isWordChar c")
    case True
    with 2 show ?thesis using replace_word [OF True, of cs]
      by (simp del: replaceStopwords.simps)
  next
    case False
    let ?g = "takeWhile (\<lambda>x. \<not> isWordChar x) (c # cs)"
    let ?r = "dropWhile (\<lambda>x. \<not> isWordChar x) (c # cs)"
    from False have g: "?g = c # takeWhile (\<lambda>x. \<not> isWordChar x) cs" by simp
    have "replaceStopwords False (?g @ ?r) = ?g @ replaceStopwords False ?r"
      by (rule replace_gap) (auto simp: g False dest: set_takeWhileD)
    then have split: "replaceStopwords False (c # cs) = ?g @ replaceStopwords False ?r"
      by (simp only: takeWhile_dropWhile_id)
    have "\<not> isStopword ?g"
      using False word_letters by (auto simp: g isStopword_def)
    with 2 False split show ?thesis by (simp del: replaceStopwords.simps)
  qed
qed

lemma stripStopwords_runs:
  "stripStopwords s = concat (filter (\<lambda>w. \<not> isStopword w) (runs s))"
  by (simp add: stripStopwords_def strip_runs)

lemma runs_Cons: "\<exists>w rs. runs (c # cs) = (c # w) # rs"
  by (cases "isWordChar c") simp_all

lemma runs_word:
  "isWordChar c \<Longrightarrow>
   runs (c # cs) = (c # takeWhile isWordChar cs) # runs (dropWhile isWordChar cs)"
  by simp

lemma runs_gap:
  "\<not> isWordChar c \<Longrightarrow>
   runs (c # cs) = (c # takeWhile (\<lambda>x. \<not> isWordChar x) cs)
                   # runs (dropWhile (\<lambda>x. \<not> isWordChar x) cs)"
  by simp

lemma oneClass_takeWhile:
  "oneClass (c # takeWhile (\<lambda>x. isWordChar x = isWordChar c) cs)"
  by (auto simp: oneClass_def list_all_iff dest: set_takeWhileD)

lemma runs_oneClass: "list_all oneClass (runs s)"
proof (induction s rule: runs.induct)
  case 1
  show ?case by simp
next
  case (2 c cs)
  show ?case
  proof (cases "isWordChar c")
    case True
    then have same: "(\<lambda>x. isWordChar x = isWordChar c) = isWordChar" by (simp add: fun_eq_iff)
    from 2(1) [OF True] True have "list_all oneClass (runs (dropWhile isWordChar cs))"
      by (simp del: runs.simps)
    moreover have "oneClass (c # takeWhile isWordChar cs)"
      using oneClass_takeWhile [of c cs] by (simp only: same)
    ultimately show ?thesis unfolding runs_word [OF True] by simp
  next
    case False
    then have same: "(\<lambda>x. isWordChar x = isWordChar c) = (\<lambda>x. \<not> isWordChar x)"
      by (simp add: fun_eq_iff)
    from 2(2) [OF False] False
    have "list_all oneClass (runs (dropWhile (\<lambda>x. \<not> isWordChar x) cs))"
      by (simp del: runs.simps)
    moreover have "oneClass (c # takeWhile (\<lambda>x. \<not> isWordChar x) cs)"
      using oneClass_takeWhile [of c cs] by (simp only: same)
    ultimately show ?thesis unfolding runs_gap [OF False] by simp
  qed
qed

lemma alternating_step:
  assumes rest: "alternating (runs r)"
    and other: "\<And>d ds. r = d # ds \<Longrightarrow> isWordChar d \<noteq> isWordChar c"
  shows "alternating ((c # w) # runs r)"
proof (cases r)
  case Nil
  then show ?thesis by (simp del: runs.simps(2))
next
  case (Cons d ds)
  obtain v rs where v: "runs (d # ds) = (d # v) # rs" using runs_Cons by blast
  from rest Cons v have "alternating ((d # v) # rs)" by (simp del: runs.simps)
  moreover from other Cons have "isWordChar c \<noteq> isWordChar d" by blast
  ultimately show ?thesis using Cons v by (simp del: runs.simps)
qed

lemma runs_alternating: "alternating (runs s)"
proof (induction s rule: runs.induct)
  case 1
  show ?case by simp
next
  case (2 c cs)
  show ?case
  proof (cases "isWordChar c")
    case True
    let ?r = "dropWhile isWordChar cs"
    from 2(1) [OF True] True have "alternating (runs ?r)" by (simp del: runs.simps)
    moreover have "isWordChar d \<noteq> isWordChar c" if "?r = d # ds" for d ds
      using that True hd_dropWhile [of isWordChar cs] by auto
    ultimately have "alternating ((c # takeWhile isWordChar cs) # runs ?r)"
      by (rule alternating_step)
    then show ?thesis unfolding runs_word [OF True] .
  next
    case False
    let ?r = "dropWhile (\<lambda>x. \<not> isWordChar x) cs"
    from 2(2) [OF False] False have "alternating (runs ?r)" by (simp del: runs.simps)
    moreover have "isWordChar d \<noteq> isWordChar c" if "?r = d # ds" for d ds
      using that False hd_dropWhile [of "\<lambda>x. \<not> isWordChar x" cs] by auto
    ultimately have "alternating ((c # takeWhile (\<lambda>x. \<not> isWordChar x) cs) # runs ?r)"
      by (rule alternating_step)
    then show ?thesis unfolding runs_gap [OF False] .
  qed
qed

subsection \<open>No object is shared between the deck and a snapshot\<close>

lemma set_refsList: "set (refsList d) = {r. Some r \<in> set d}"
  by (induction d rule: refsList.induct) auto

lemma refsList_append: "refsList (d @ e) = refsList d @ refsList e"
  by (induction d rule: refsList.induct) auto

lemma refsList_filter: "refsList d = map the (filter (\<lambda>sl. sl \<noteq> None) d)"
  by (induction d rule: refsList.induct) auto

lemma mset_refsList: "mset d = mset e \<Longrightarrow> mset (refsList d) = mset (refsList e)"
  by (metis refsList_filter mset_filter mset_map)

lemma refsList_deepCopy:
  "refsList (snd (deepCopy h d)) = [length h ..< length (fst (deepCopy h d))]"
proof (induction h d rule: deepCopy.induct)
  case (1 h)
  show ?case by simp
next
  case (2 h rest)
  then show ?case by (simp add: split_beta)
next
  case (3 h r rest)
  have "length (h @ [h ! r]) \<le> length (fst (deepCopy (h @ [h ! r]) rest))"
    by (rule deepCopy_heap_length)
  then have "length h < length (fst (deepCopy (h @ [h ! r]) rest))" by simp
  then have "[length h ..< length (fst (deepCopy (h @ [h ! r]) rest))]
      = length h # [Suc (length h) ..< length (fst (deepCopy (h @ [h ! r]) rest))]"
    by (rule upt_conv_Cons)
  with 3 show ?case by (simp add: split_beta)
qed

lemma refsList_tl_suffix: "suffix (refsList (tl d)) (refsList d)"
  by (cases d rule: refsList.cases) (auto simp: suffix_Cons)

lemma allRefs_bound:
  "wellFormed s \<Longrightarrow> r \<in> set (allRefs s) \<Longrightarrow> r < length (heap s)"
  by (auto simp: allRefs_def wellFormed_iff set_refsList dest: validRefs_member)

lemma distinct_three:
  "distinct (a @ d) \<Longrightarrow> distinct m \<Longrightarrow> set m \<inter> (set a \<union> set d) = {} \<Longrightarrow>
   distinct (a @ m @ d)"
  by auto

lemma concat_tl_suffix: "suffix (concat (map f (tl xs))) (concat (map f xs))"
  by (cases xs) (auto simp: suffix_def)

lemma separated_saveState:
  assumes wf: "wellFormed s" and sep: "separated s"
  shows "separated (saveState s)"
proof -
  let ?snap = "snd (deepCopy (heap s) (deck s))"
  let ?A = "concat (map refsList (history s))"
  let ?D = "refsList (deck s)"
  let ?M = "refsList ?snap"
  have parts: "set ?A \<union> set ?D = set (allRefs s)"
    by (simp add: allRefs_def)
  have bound: "r < length (heap s)" if "r \<in> set ?A \<union> set ?D" for r
    using that allRefs_bound [OF wf] unfolding parts by blast
  have fresh: "length (heap s) \<le> r" if "r \<in> set ?M" for r
    using that by (simp add: refsList_deepCopy)
  have "r \<notin> set ?A \<union> set ?D" if "r \<in> set ?M" for r
    using fresh [OF that] bound [of r] by (meson not_le)
  then have disj: "set ?M \<inter> (set ?A \<union> set ?D) = {}" by blast
  have dm: "distinct ?M" by (simp add: refsList_deepCopy)
  have whole: "distinct (?A @ ?M @ ?D)"
    using sep dm disj unfolding separated_def allRefs_def by (rule distinct_three)
  show ?thesis
  proof (cases "length (history s) \<ge> 10")
    case False
    then show ?thesis using whole
      by (simp add: separated_def allRefs_def saveState_history saveState_fields(1))
  next
    case True
    let ?A' = "concat (map refsList (tl (history s)))"
    have "suffix ?A' ?A" by (rule concat_tl_suffix)
    then obtain pre where "?A = pre @ ?A'" by (auto simp: suffix_def)
    then have "distinct (pre @ (?A' @ ?M @ ?D))" using whole by simp
    then have "distinct (?A' @ ?M @ ?D)" by (simp only: distinct_append)
    then show ?thesis using True
      by (simp add: separated_def allRefs_def saveState_history saveState_fields(1))
  qed
qed

lemma separated_undo: "separated s \<Longrightarrow> separated (undo s)"
proof (cases "history s = []")
  case True
  assume "separated s"
  with True show ?thesis by (simp add: undo_def)
next
  case False
  assume sep: "separated s"
  from False obtain b l where "history s = b @ [l]"
    by (metis append_butlast_last_id)
  then show ?thesis using sep by (auto simp: separated_def allRefs_def undo_def)
qed

lemma separated_deck_update:
  assumes sep: "separated s"
    and sub: "set (refsList d) \<subseteq> set (refsList (deck s))"
    and dist: "distinct (refsList d)"
  shows "separated (s\<lparr>deck := d\<rparr>)"
  using assms by (auto simp: separated_def allRefs_def)

lemma separated_other_fields:
  "separated (s\<lparr>selectedElixir := e\<rparr>) = separated s"
  "separated (s\<lparr>heap := h\<rparr>) = separated s"
  "separated (s\<lparr>cards := c\<rparr>) = separated s"
  "separated (s\<lparr>notifications := n\<rparr>) = separated s"
  "separated (s\<lparr>matcherCalls := m\<rparr>) = separated s"
  by (simp_all add: separated_def allRefs_def)

lemma separated_deck_distinct: "separated s \<Longrightarrow> distinct (refsList (deck s))"
  by (simp add: separated_def allRefs_def)

lemma separated_rotated:
  assumes sep: "separated s" and p: "p < length (deck s)"
  shows "separated (s\<lparr>deck := rotated p (deck s)\<rparr>)"
proof -
  have m: "mset (refsList (rotated p (deck s))) = mset (refsList (deck s))"
    using mset_rotated [OF p] by (rule mset_refsList)
  then have "set (refsList (rotated p (deck s))) = set (refsList (deck s))"
    by (rule mset_eq_setD)
  moreover have "distinct (refsList (rotated p (deck s)))"
    using m separated_deck_distinct [OF sep] by (metis mset_eq_imp_distinct_iff)
  ultimately show ?thesis using sep by (simp add: separated_deck_update)
qed

lemma goodState_saveState: "goodState s \<Longrightarrow> goodState (saveState s)"
  by (simp add: goodState_def deckShape_saveState wellFormed_saveState separated_saveState)

lemma separated_cycleCard:
  assumes "goodState s"
  shows "separated (cycleCard p s)"
proof (cases "slotAt (deck s) p")
  case None
  with assms show ?thesis by (simp add: cycleCard_None goodState_def)
next
  case (Some r)
  from assms have len: "length (deck s) \<le> 8" by (simp add: goodState_def deckShape_def)
  from assms have "separated (saveState s)"
    by (simp add: goodState_def separated_saveState)
  moreover from Some have "p < length (deck (saveState s))"
    by (simp add: slotAt_Some saveState_fields(1))
  ultimately have "separated ((saveState s)\<lparr>deck := rotated p (deck (saveState s))\<rparr>)"
    by (rule separated_rotated)
  then show ?thesis using Some len by (simp add: cycleCard_rotated saveState_fields(1))
qed

lemma goodState_cycleCard: "goodState s \<Longrightarrow> goodState (cycleCard p s)"
  by (simp add: goodState_def deckShape_cycleCard wellFormed_cycleCard
        separated_cycleCard [unfolded goodState_def])

lemma separated_selectCard:
  assumes good: "goodState s"
  shows "separated (selectCard c s)"
proof -
  let ?s1 = "saveState s"
  from good have good1: "goodState ?s1" by (rule goodState_saveState)
  show ?thesis
  proof (cases "findIndex (sameName (heap ?s1) c) (deck ?s1)")
    case (Some i)
    then show ?thesis using separated_cycleCard [OF good1, of i]
      by (simp add: selectCard_def Let_def separated_other_fields)
  next
    case None
    let ?n = "length (heap ?s1)"
    let ?A = "concat (map refsList (history ?s1))"
    from good1 have wf1: "wellFormed ?s1" and sep1: "separated ?s1"
      by (simp_all add: goodState_def)
    have old: "r < ?n" if "r \<in> set (allRefs ?s1)" for r
      using wf1 that by (rule allRefs_bound)
    obtain pre where pre: "refsList (deck ?s1) = pre @ refsList (tl (deck ?s1))"
      using refsList_tl_suffix [of "deck ?s1"] by (auto simp: suffix_def)
    from sep1 have "distinct (?A @ pre @ refsList (tl (deck ?s1)))"
      by (simp add: separated_def allRefs_def pre)
    then have d1: "distinct (?A @ refsList (tl (deck ?s1)))" by auto
    have "set (?A @ refsList (tl (deck ?s1))) \<subseteq> set (allRefs ?s1)"
      by (auto simp: allRefs_def pre)
    then have "?n \<notin> set (?A @ refsList (tl (deck ?s1)))"
      using old [of ?n] by blast
    with d1 have "distinct ((?A @ refsList (tl (deck ?s1))) @ [?n])"
      by (simp only: distinct_append distinct_singleton) simp
    then have "separated (?s1\<lparr>heap := heap ?s1 @ [newSlotCard c],
        deck := tl (deck ?s1) @ [Some ?n]\<rparr>)"
      by (simp add: separated_def allRefs_def refsList_append)
    then show ?thesis using None
      by (simp add: selectCard_def Let_def separated_other_fields)
  qed
qed

lemma goodState_selectCard: "goodState s \<Longrightarrow> goodState (selectCard c s)"
  by (simp add: goodState_def deckShape_selectCard wellFormed_selectCard
        separated_selectCard [unfolded goodState_def])

lemma separated_toggleEvolution:
  "wellFormed s \<Longrightarrow> separated s \<Longrightarrow> separated (toggleEvolution p s)"
  by (cases "slotAt (deck s) p")
     (simp_all add: toggleEvolution_def writeObject_def separated_other_fields
        separated_saveState)

lemma goodState_step: "goodState s \<Longrightarrow> goodState (step a s)"
proof -
  assume good: "goodState s"
  then have sel: "separated (selectCard c t)" if "separated t" "deckShape t" "wellFormed t" for c t
    using that separated_selectCard [of t c] by (simp add: goodState_def)
  have "separated (step a s)"
  proof (cases a)
    case (VoiceResult transcript)
    show ?thesis
    proof (cases "findBestCardMatch (cards s) (trim (drop 4 (toLowerCase transcript)))")
      case None
      with good VoiceResult show ?thesis
        by (simp add: goodState_def onresult_def processVoiceCommand_def addCardByVoice_def
              showVoiceConfirmation_def separated_other_fields)
    next
      case (Some c)
      from good have "goodState (s\<lparr>matcherCalls := matcherCalls s
          @ [trim (drop 4 (toLowerCase transcript))]\<rparr>)"
        by (simp add: goodState_def separated_other_fields wellFormed_other_fields
              deckShape_other_fields)
      then have "separated (selectCard c (s\<lparr>matcherCalls := matcherCalls s
          @ [trim (drop 4 (toLowerCase transcript))]\<rparr>))"
        by (rule separated_selectCard)
      with good Some VoiceResult show ?thesis
        by (simp add: goodState_def onresult_def processVoiceCommand_def addCardByVoice_def
              showVoiceConfirmation_def separated_other_fields Let_def)
    qed
  qed (use good in \<open>simp_all add: goodState_def loadCards_def selectElixir_def
        separated_other_fields separated_saveState separated_undo separated_toggleEvolution
        separated_selectCard [unfolded goodState_def]
        separated_cycleCard [unfolded goodState_def]\<close>)
  with good show ?thesis
    by (simp add: goodState_def deckShape_step wellFormed_step)
qed

lemma goodState_run: "goodState (run acts constructor)"
proof (induction acts rule: rev_induct)
  case Nil
  have "wellFormed (run [] constructor)" by (rule wellFormed_run)
  then show ?case
    by (simp add: goodState_def run_def deckShape_constructor)
       (simp add: separated_def allRefs_def constructor_def refsList_filter)
next
  case (snoc a acts)
  then show ?case by (simp add: run_snoc goodState_step)
qed

subsection \<open>Every action but undo is a sequence of pushes\<close>

lemma historyView_same:
  assumes "history t' = history t"
    and "\<And>snap sl. snap \<in> set (history t) \<Longrightarrow> sl \<in> set snap \<Longrightarrow>
           slotView (heap t') sl = slotView (heap t) sl"
  shows "historyView t' = historyView t"
  using assms by (simp add: historyView_def)

lemma historyView_heap_grow:
  assumes wf: "wellFormed t" and pre: "prefix (heap t) (heap t')"
    and hist: "history t' = history t"
  shows "historyView t' = historyView t"
  using hist
proof (rule historyView_same)
  fix snap sl assume "snap \<in> set (history t)" and "sl \<in> set snap"
  with wf have "validSlot (heap t) sl" by (auto simp: wellFormed_iff validRefs_iff)
  with pre show "slotView (heap t') sl = slotView (heap t) sl" by (rule slotView_eq_prefix)
qed

lemma historyView_writeObject:
  assumes sep: "separated t" and slot: "slotAt (deck t) p = Some r"
  shows "historyView (writeObject r f t) = historyView t"
proof (rule historyView_same)
  show "history (writeObject r f t) = history t" by (simp add: writeObject_fields)
next
  fix snap sl assume snap: "snap \<in> set (history t)" and sl: "sl \<in> set snap"
  from slot have "r \<in> set (refsList (deck t))"
    by (simp add: set_refsList slotAt_member)
  moreover from sep have "set (concat (map refsList (history t))) \<inter> set (refsList (deck t)) = {}"
    by (simp add: separated_def allRefs_def)
  ultimately have "r \<notin> set (refsList snap)" using snap by auto
  with sl have "sl \<noteq> Some r" by (auto simp: set_refsList)
  then show "slotView (heap (writeObject r f t)) sl = slotView (heap t) sl"
    by (cases sl) (auto simp: slotView_simps writeObject_fields)
qed

lemma pushes_trans: "pushes t ws u \<Longrightarrow> pushes s vs t \<Longrightarrow> pushes s (vs @ ws) u"
proof (induction rule: pushes.induct)
  case (pushes_start t)
  then show ?case by simp
next
  case (pushes_push t ws u)
  then have "pushes s (vs @ ws) u" and "wellFormed u" by simp_all
  then have "pushes s ((vs @ ws) @ [deckView u]) (saveState u)"
    by (rule pushes.pushes_push)
  then show ?case by simp
next
  case (pushes_change t ws u u')
  then show ?case by (simp add: pushes.pushes_change)
qed

lemma pushes_saveState: "wellFormed s \<Longrightarrow> pushes s [deckView s] (saveState s)"
  using pushes_push [OF pushes_start, of s] by simp

lemma pushes_cycleCard:
  assumes "wellFormed s"
  shows "\<exists>k \<le> 1. pushes s (replicate k (deckView s)) (cycleCard p s)"
proof (cases "slotAt (deck s) p")
  case None
  then have "pushes s (replicate 0 (deckView s)) (cycleCard p s)"
    by (simp add: cycleCard_None pushes_start)
  then show ?thesis by blast
next
  case (Some r)
  have "pushes s [deckView s] (saveState s)" using assms by (rule pushes_saveState)
  moreover have "historyView (cycleCard p s) = historyView (saveState s)"
    using Some by (simp add: cycleCard_Some historyView_def)
  ultimately have "pushes s (replicate 1 (deckView s)) (cycleCard p s)"
    by (simp add: pushes_change)
  then show ?thesis by blast
qed

lemma pushes_selectCard:
  assumes good: "goodState s"
  shows "\<exists>k \<le> 2. pushes s (replicate k (deckView s)) (selectCard c s)"
proof -
  let ?s1 = "saveState s"
  from good have wf: "wellFormed s" by (simp add: goodState_def)
  then have wf1: "wellFormed ?s1" by (rule wellFormed_saveState)
  from wf have view1: "deckView ?s1 = deckView s"
    by (simp add: wellFormed_iff deckView_saveState)
  have first: "pushes s [deckView s] ?s1" using wf by (rule pushes_saveState)
  show ?thesis
  proof (cases "findIndex (sameName (heap ?s1) c) (deck ?s1)")
    case None
    let ?t = "?s1\<lparr>heap := heap ?s1 @ [newSlotCard c],
        deck := tl (deck ?s1) @ [Some (length (heap ?s1))], selectedElixir := None\<rparr>"
    have "historyView ?t = historyView ?s1"
      using wf1 by (rule historyView_heap_grow) simp_all
    with first have "pushes s (replicate 1 (deckView s)) ?t" by (simp add: pushes_change)
    moreover have "selectCard c s = ?t" using None by (simp add: selectCard_def Let_def)
    ultimately show ?thesis by (metis one_le_numeral)
  next
    case (Some i)
    from pushes_cycleCard [OF wf1, of i] obtain k
      where k: "k \<le> 1" and cyc: "pushes ?s1 (replicate k (deckView ?s1)) (cycleCard i ?s1)"
      by blast
    from cyc first have "pushes s ([deckView s] @ replicate k (deckView ?s1)) (cycleCard i ?s1)"
      by (rule pushes_trans)
    then have "pushes s (replicate (Suc k) (deckView s)) (cycleCard i ?s1)"
      by (simp add: view1)
    moreover have "historyView (selectCard c s) = historyView (cycleCard i ?s1)"
      using Some by (simp add: selectCard_def Let_def historyView_def)
    ultimately have "pushes s (replicate (Suc k) (deckView s)) (selectCard c s)"
      by (simp add: pushes_change)
    moreover from k have "Suc k \<le> 2" by simp
    ultimately show ?thesis by blast
  qed
qed

lemma pushes_toggleEvolution:
  assumes good: "goodState s"
  shows "\<exists>k \<le> 1. pushes s (replicate k (deckView s)) (toggleEvolution p s)"
proof (cases "slotAt (deck s) p")
  case None
  then have "pushes s (replicate 0 (deckView s)) (toggleEvolution p s)"
    by (simp add: toggleEvolution_def pushes_start)
  then show ?thesis by blast
next
  case (Some r)
  from good have wf: "wellFormed s" and sep: "separated s" by (simp_all add: goodState_def)
  have "pushes s [deckView s] (saveState s)" using wf by (rule pushes_saveState)
  moreover have "historyView (writeObject r (\<lambda>card. card\<lparr>isEvo := \<not> isEvo card\<rparr>) (saveState s))
      = historyView (saveState s)"
    using separated_saveState [OF wf sep] Some
    by (simp add: historyView_writeObject saveState_fields(1))
  ultimately have "pushes s (replicate 1 (deckView s)) (toggleEvolution p s)"
    using Some by (simp add: toggleEvolution_def pushes_change)
  then show ?thesis by blast
qed

lemma pushes_fields:
  "pushes s vs t \<Longrightarrow> pushes s vs (t\<lparr>selectedElixir := e\<rparr>)"
  "pushes s vs t \<Longrightarrow> pushes s vs (t\<lparr>cards := c\<rparr>)"
  "pushes s vs t \<Longrightarrow> pushes s vs (t\<lparr>notifications := n\<rparr>)"
  "pushes s vs t \<Longrightarrow> pushes s vs (t\<lparr>matcherCalls := m\<rparr>)"
  by (erule pushes_change, simp add: historyView_def)+

lemma pushes_onresult:
  assumes good: "goodState s"
  shows "\<exists>k \<le> 2. pushes s (replicate k (deckView s)) (onresult transcript s)"
proof -
  let ?n = "trim (drop 4 (toLowerCase transcript))"
  let ?s0 = "s\<lparr>matcherCalls := matcherCalls s @ [?n]\<rparr>"
  have idle: "\<exists>k \<le> 2. pushes s (replicate k (deckView s)) t" if "pushes s [] t" for t
  proof -
    from that have "pushes s (replicate 0 (deckView s)) t" by simp
    then show ?thesis by blast
  qed
  have start0: "pushes s [] ?s0" using pushes_start by (rule pushes_fields)
  show ?thesis
  proof (cases "startsWith (toLowerCase transcript) ''add ''")
    case False
    then show ?thesis by (simp add: onresult_def processVoiceCommand_def idle pushes_start)
  next
    case True
    show ?thesis
    proof (cases "findBestCardMatch (cards s) ?n")
      case None
      have "pushes s [] (?s0\<lparr>notifications := notifications ?s0 @ [''Card not found: '' @ ?n]\<rparr>)"
        using start0 by (rule pushes_fields)
      then show ?thesis using True None
        by (simp add: onresult_def processVoiceCommand_def addCardByVoice_def
              showVoiceConfirmation_def idle)
    next
      case (Some c)
      from good have "goodState ?s0"
        by (simp add: goodState_def separated_other_fields wellFormed_other_fields
              deckShape_other_fields)
      from pushes_selectCard [OF this, of c] obtain k where k: "k \<le> 2"
        and sel: "pushes ?s0 (replicate k (deckView ?s0)) (selectCard c ?s0)" by blast
      from sel start0 have "pushes s ([] @ replicate k (deckView ?s0)) (selectCard c ?s0)"
        by (rule pushes_trans)
      then have "pushes s (replicate k (deckView s)) (selectCard c ?s0)"
        by (simp add: deckView_def)
      then have "pushes s (replicate k (deckView s))
          ((selectCard c ?s0)\<lparr>notifications := notifications (selectCard c ?s0)
             @ [''Added: '' @ name c]\<rparr>)"
        by (rule pushes_fields)
      then have "pushes s (replicate k (deckView s)) (onresult transcript s)"
        using True Some
        by (simp add: onresult_def processVoiceCommand_def addCardByVoice_def
              showVoiceConfirmation_def Let_def)
      with k show ?thesis by blast
    qed
  qed
qed

lemma pushes_step:
  assumes good: "goodState s" and other: "a \<noteq> Undo"
  shows "\<exists>k \<le> 2. pushes s (replicate k (deckView s)) (step a s)"
proof (cases a)
  case (LoadCards cat)
  have "pushes s (replicate 0 (deckView s)) (s\<lparr>cards := cat\<rparr>)"
    using pushes_start by (simp add: pushes_fields)
  then show ?thesis using LoadCards by (auto simp: loadCards_def)
next
  case (SelectElixir e b)
  from good have "pushes s [deckView s] (saveState s)"
    by (simp add: goodState_def pushes_saveState)
  then have "pushes s (replicate 1 (deckView s)) (selectElixir e b s)"
    by (cases b) (simp_all add: selectElixir_def pushes_fields)
  then show ?thesis using SelectElixir by (metis step.simps(2) one_le_numeral)
next
  case (SelectCard c)
  then show ?thesis using pushes_selectCard [OF good, of c] by simp
next
  case (CycleCard p)
  from good have "wellFormed s" by (simp add: goodState_def)
  from pushes_cycleCard [OF this, of p] show ?thesis using CycleCard
    by (metis step.simps(4) le_trans one_le_numeral)
next
  case (ToggleEvolution p)
  from pushes_toggleEvolution [OF good, of p] show ?thesis using ToggleEvolution
    by (metis step.simps(5) le_trans one_le_numeral)
next
  case Undo
  with other show ?thesis by simp
next
  case (VoiceResult transcript)
  then show ?thesis using pushes_onresult [OF good, of transcript] by simp
qed

text \<open>
  In a reachable state every action other than undo pushes at most two snapshots, each
  the deck as it was before the action, and changes nothing else in the history; and a
  write to the object in a slot of the deck is seen by no snapshot.
\<close>

lemma reachable_action_pushes:
  "a \<noteq> Undo \<Longrightarrow>
   \<exists>k \<le> 2. pushes (run acts constructor) (replicate k (deckView (run acts constructor)))
            (step a (run acts constructor))"
  using goodState_run by (rule pushes_step)

lemma reachable_write_keeps_history:
  "historyView (mutateSlot position f (run acts constructor)) = historyView (run acts constructor)"
proof (cases "slotAt (deck (run acts constructor)) position")
  case None
  then show ?thesis by (simp add: mutateSlot_def)
next
  case (Some r)
  have "separated (run acts constructor)"
    using goodState_run [of acts] by (simp add: goodState_def)
  then show ?thesis using Some by (simp add: mutateSlot_def historyView_writeObject)
qed

subsection \<open>The names in a reachable deck are distinct\<close>

lemma namesOf_append: "namesOf (v @ w) = namesOf v @ namesOf w"
  by (induction v rule: namesOf.induct) auto

lemma namesOf_filter: "namesOf v = map (\<lambda>x. name (the x)) (filter (\<lambda>x. x \<noteq> None) v)"
  by (induction v rule: namesOf.induct) auto

lemma mset_namesOf: "mset v = mset w \<Longrightarrow> mset (namesOf v) = mset (namesOf w)"
  by (metis namesOf_filter mset_filter mset_map)

lemma namesOf_tl_suffix: "suffix (namesOf (tl v)) (namesOf v)"
  by (cases v rule: namesOf.cases) (auto simp: suffix_Cons)

lemma namesOf_member: "Some c \<in> set v \<Longrightarrow> name c \<in> set (namesOf v)"
  by (induction v rule: namesOf.induct) auto

lemma namesOf_positions:
  "distinct (namesOf v) \<Longrightarrow> i < j \<Longrightarrow> j < length v \<Longrightarrow> v ! i = Some a \<Longrightarrow> v ! j = Some b
   \<Longrightarrow> name a \<noteq> name b"
proof (induction v arbitrary: i j rule: namesOf.induct)
  case 1
  then show ?case by simp
next
  case (2 v)
  then show ?case by (cases i; cases j) auto
next
  case (3 c v)
  show ?case
  proof (cases i)
    case 0
    with 3 obtain j' where j: "j = Suc j'" by (cases j) auto
    with 3 have "Some b \<in> set v" by (auto simp: in_set_conv_nth)
    then have "name b \<in> set (namesOf v)" by (rule namesOf_member)
    with 3 0 show ?thesis by auto
  next
    case (Suc i')
    with 3 obtain j' where "j = Suc j'" by (cases j) auto
    with 3 Suc show ?thesis by auto
  qed
qed

lemma findIndex_least:
  "P (xs ! p) \<Longrightarrow> p < length xs \<Longrightarrow> \<exists>q \<le> p. findIndex P xs = Some q"
proof (induction xs arbitrary: p)
  case Nil
  then show ?case by simp
next
  case (Cons x xs)
  show ?case
  proof (cases "P x")
    case True
    then show ?thesis by simp
  next
    case False
    with Cons.prems obtain p' where p: "p = Suc p'" by (cases p) auto
    with Cons.prems have "P (xs ! p')" "p' < length xs" by simp_all
    with Cons.IH obtain q where "q \<le> p'" "findIndex P xs = Some q" by blast
    with False p show ?thesis by auto
  qed
qed

lemma distinct_names_position:
  assumes dist: "distinct (namesOf (deckView s))"
    and p: "p < length (deck s)" and slot: "deck s ! p = Some r"
    and same: "name (heap s ! r) = name c"
  shows "findIndex (sameName (heap s) c) (deck s) = Some p"
proof -
  from slot same have "sameName (heap s) c (deck s ! p)" by (simp add: sameName_def)
  with p obtain q where q: "q \<le> p" and found: "findIndex (sameName (heap s) c) (deck s) = Some q"
    using findIndex_least by blast
  from found obtain r' where r': "slotAt (deck s) q = Some r'" "name (heap s ! r') = name c"
    using found_occupied by blast
  have "q = p"
  proof (rule ccontr)
    assume "q \<noteq> p"
    with q have less: "q < p" by simp
    from r' have vq: "deckView s ! q = Some (heap s ! r')"
      using less p by (simp add: deckView_def slotView_simps slotAt_Some)
    from slot p have vp: "deckView s ! p = Some (heap s ! r)"
      by (simp add: deckView_def slotView_simps)
    have len: "p < length (deckView s)" using p by (simp add: deckView_def)
    from dist less len vq vp have "name (heap s ! r') \<noteq> name (heap s ! r)"
      by (rule namesOf_positions)
    with same r' show False by simp
  qed
  with found show ?thesis by simp
qed

lemma set_namesOf: "set (namesOf v) = {name c | c. Some c \<in> set v}"
  by (induction v rule: namesOf.induct) auto

lemma findIndex_None: "findIndex P xs = None \<longleftrightarrow> (\<forall>x \<in> set xs. \<not> P x)"
  by (induction xs) auto

lemma set_lastN: "x \<in> set (lastN n xs) \<Longrightarrow> x \<in> set xs"
  by (auto simp: lastN_def dest: in_set_dropD)

lemma distinctNames_other_fields:
  "distinctNames (s\<lparr>selectedElixir := e\<rparr>) = distinctNames s"
  "distinctNames (s\<lparr>cards := c\<rparr>) = distinctNames s"
  "distinctNames (s\<lparr>notifications := n\<rparr>) = distinctNames s"
  "distinctNames (s\<lparr>matcherCalls := m\<rparr>) = distinctNames s"
  by (simp_all add: distinctNames_def deckView_def historyView_def)

lemma distinctNames_saveState:
  assumes wf: "wellFormed s" and bound: "historyBound s" and names: "distinctNames s"
  shows "distinctNames (saveState s)"
proof -
  from wf have "deckView (saveState s) = deckView s"
    by (simp add: wellFormed_iff deckView_saveState)
  moreover have "historyView (saveState s) = lastN 10 (historyView s @ [deckView s])"
    using wf bound by (simp add: historyView_saveState historyBound_def)
  ultimately show ?thesis using names
    by (auto simp: distinctNames_def list_all_iff dest!: set_lastN)
qed

lemma distinctNames_undo: "distinctNames s \<Longrightarrow> distinctNames (undo s)"
proof (cases "history s = []")
  case True
  assume "distinctNames s"
  with True show ?thesis by (simp add: undo_def)
next
  case False
  assume names: "distinctNames s"
  from False have "deckView (undo s) = last (historyView s)"
    by (simp add: undo_def deckView_def historyView_def last_map)
  moreover from False have "historyView (undo s) = butlast (historyView s)"
    by (simp add: undo_def historyView_def map_butlast)
  moreover from False have "historyView s \<noteq> []"
    by (simp add: historyView_def)
  then have "last (historyView s) \<in> set (historyView s)"
    by (rule last_in_set)
  ultimately show ?thesis using names
    by (auto simp: distinctNames_def list_all_iff dest: in_set_butlastD)
qed

lemma distinctNames_rotated:
  assumes names: "distinctNames t" and p: "p < length (deck t)"
  shows "distinctNames (t\<lparr>deck := rotated p (deck t)\<rparr>)"
proof -
  have "mset (map (slotView (heap t)) (rotated p (deck t))) = mset (map (slotView (heap t)) (deck t))"
    using mset_rotated [OF p] by (metis mset_map)
  then have "mset (namesOf (map (slotView (heap t)) (rotated p (deck t))))
      = mset (namesOf (deckView t))"
    unfolding deckView_def by (rule mset_namesOf)
  then have "distinct (namesOf (map (slotView (heap t)) (rotated p (deck t))))
      = distinct (namesOf (deckView t))"
    by (rule mset_eq_imp_distinct_iff)
  then show ?thesis using names by (simp add: distinctNames_def deckView_def historyView_def)
qed

lemma distinctNames_cycleCard:
  assumes inv: "reachableInv s"
  shows "distinctNames (cycleCard p s)"
proof (cases "slotAt (deck s) p")
  case None
  with inv show ?thesis by (simp add: cycleCard_None reachableInv_def)
next
  case (Some r)
  from inv have len: "length (deck s) \<le> 8"
    by (simp add: reachableInv_def goodState_def deckShape_def)
  from inv have "distinctNames (saveState s)"
    by (simp add: reachableInv_def goodState_def distinctNames_saveState)
  moreover from Some have "p < length (deck (saveState s))"
    by (simp add: slotAt_Some saveState_fields(1))
  ultimately have "distinctNames ((saveState s)\<lparr>deck := rotated p (deck (saveState s))\<rparr>)"
    by (rule distinctNames_rotated)
  then show ?thesis using Some len by (simp add: cycleCard_rotated saveState_fields(1))
qed

lemma reachableInv_saveState: "reachableInv s \<Longrightarrow> reachableInv (saveState s)"
  by (simp add: reachableInv_def goodState_def deckShape_saveState wellFormed_saveState
        separated_saveState historyBound_saveState distinctNames_saveState)

lemma distinctNames_selectCard:
  assumes inv: "reachableInv s"
  shows "distinctNames (selectCard c s)"
proof -
  let ?s1 = "saveState s"
  let ?h1 = "heap ?s1"
  from inv have inv1: "reachableInv ?s1" by (rule reachableInv_saveState)
  then have wf1: "wellFormed ?s1" and names1: "distinctNames ?s1"
    by (simp_all add: reachableInv_def goodState_def)
  show ?thesis
  proof (cases "findIndex (sameName ?h1 c) (deck ?s1)")
    case (Some i)
    then show ?thesis using distinctNames_cycleCard [OF inv1, of i]
      by (simp add: selectCard_def Let_def distinctNames_other_fields)
  next
    case None
    let ?t = "?s1\<lparr>heap := ?h1 @ [newSlotCard c],
        deck := tl (deck ?s1) @ [Some (length ?h1)]\<rparr>"
    have "set (tl (deck ?s1)) \<subseteq> set (deck ?s1)" by (auto dest: set_tl_subset)
    moreover from wf1 have "validRefs ?h1 (deck ?s1)" by (simp add: wellFormed_iff)
    ultimately have "validRefs ?h1 (tl (deck ?s1))" by (rule validRefs_subset)
    then have "map (slotView (?h1 @ [newSlotCard c])) (tl (deck ?s1))
        = map (slotView ?h1) (tl (deck ?s1))"
      by (rule slotView_prefix [rotated]) simp
    then have view: "deckView ?t = tl (deckView ?s1) @ [Some (newSlotCard c)]"
      by (simp add: deckView_def slotView_simps map_tl)
    have fresh: "name c \<notin> set (namesOf (deckView ?s1))"
    proof
      assume "name c \<in> set (namesOf (deckView ?s1))"
      then obtain x where x: "Some x \<in> set (deckView ?s1)" "name x = name c"
        by (auto simp: set_namesOf)
      then obtain sl where sl: "sl \<in> set (deck ?s1)" "slotView ?h1 sl = Some x"
        by (auto simp: deckView_def)
      from sl(2) x(2) have "sameName ?h1 c sl"
        by (cases sl) (auto simp: sameName_def slotView_simps)
      with None sl(1) show False by (simp add: findIndex_None)
    qed
    obtain pre where pre: "namesOf (deckView ?s1) = pre @ namesOf (tl (deckView ?s1))"
      using namesOf_tl_suffix [of "deckView ?s1"] by (auto simp: suffix_def)
    from names1 have "distinct (pre @ namesOf (tl (deckView ?s1)))"
      by (simp add: distinctNames_def pre [symmetric])
    then have "distinct (namesOf (tl (deckView ?s1)))" by simp
    moreover from fresh have "name c \<notin> set (namesOf (tl (deckView ?s1)))"
      by (simp add: pre)
    moreover have "name (newSlotCard c) = name c" by (simp add: newSlotCard_def)
    ultimately have "distinct (namesOf (deckView ?t))"
      by (simp add: view namesOf_append)
    moreover have "historyView ?t = historyView ?s1"
      using wf1 by (rule historyView_heap_grow) simp_all
    ultimately have "distinctNames ?t" using names1 by (simp add: distinctNames_def)
    then show ?thesis using None
      by (simp add: selectCard_def Let_def distinctNames_other_fields)
  qed
qed

lemma namesOf_write:
  "name x = name (h ! r) \<Longrightarrow>
   namesOf (map (slotView (h[r := x])) d) = namesOf (map (slotView h) d)"
proof (induction d)
  case Nil
  show ?case by simp
next
  case (Cons sl d)
  show ?case
  proof (cases sl)
    case None
    with Cons show ?thesis by (simp add: slotView_simps)
  next
    case (Some q)
    have "h[r := x] ! q = (if q = r \<and> r < length h then x else h ! q)"
      by (cases "r < length h") (auto simp: nth_list_update list_update_beyond)
    then have "name (h[r := x] ! q) = name (h ! q)"
      using Cons.prems by simp
    with Cons Some show ?thesis by (simp add: slotView_simps)
  qed
qed

lemma distinctNames_toggleEvolution:
  assumes inv: "reachableInv s"
  shows "distinctNames (toggleEvolution p s)"
proof (cases "slotAt (deck s) p")
  case None
  with inv show ?thesis by (simp add: toggleEvolution_def reachableInv_def)
next
  case (Some r)
  let ?s1 = "saveState s"
  let ?f = "\<lambda>card. card\<lparr>isEvo := \<not> isEvo card\<rparr>"
  from inv have inv1: "reachableInv ?s1" by (rule reachableInv_saveState)
  then have sep1: "separated ?s1" and names1: "distinctNames ?s1"
    by (simp_all add: reachableInv_def goodState_def)
  from Some have slot1: "slotAt (deck ?s1) p = Some r" by (simp add: saveState_fields(1))
  have "namesOf (deckView (writeObject r ?f ?s1)) = namesOf (deckView ?s1)"
    by (simp add: deckView_def writeObject_def namesOf_write)
  moreover have "historyView (writeObject r ?f ?s1) = historyView ?s1"
    using sep1 slot1 by (rule historyView_writeObject)
  ultimately have "distinctNames (writeObject r ?f ?s1)"
    using names1 by (simp add: distinctNames_def)
  then show ?thesis using Some by (simp add: toggleEvolution_def)
qed

lemma distinctNames_step:
  assumes inv: "reachableInv s"
  shows "distinctNames (step a s)"
proof (cases a)
  case (VoiceResult transcript)
  let ?n = "trim (drop 4 (toLowerCase transcript))"
  from inv have inv0: "reachableInv (s\<lparr>matcherCalls := matcherCalls s @ [?n]\<rparr>)"
    by (simp add: reachableInv_def goodState_def separated_other_fields
          wellFormed_other_fields deckShape_other_fields historyBound_other_fields
          distinctNames_other_fields)
  show ?thesis
    using inv VoiceResult distinctNames_selectCard [OF inv0]
    by (cases "findBestCardMatch (cards s) ?n")
       (simp_all add: reachableInv_def onresult_def processVoiceCommand_def addCardByVoice_def
          showVoiceConfirmation_def Let_def distinctNames_other_fields)
qed (use inv in \<open>simp_all add: loadCards_def selectElixir_def distinctNames_other_fields
      distinctNames_undo distinctNames_selectCard distinctNames_cycleCard
      distinctNames_toggleEvolution distinctNames_saveState [OF _ _ _]
      reachableInv_saveState [unfolded reachableInv_def] reachableInv_def goodState_def\<close>)

lemma reachableInv_run: "reachableInv (run acts constructor)"
proof (induction acts rule: rev_induct)
  case Nil
  have "goodState (run [] constructor)" by (rule goodState_run)
  moreover have "historyBound (run [] constructor)" by (rule historyBound_run)
  moreover have "distinctNames (run [] constructor)"
    by (simp add: run_def distinctNames_def deckView_def historyView_def constructor_def
          namesOf_filter slotView_simps)
  ultimately show ?case by (simp add: reachableInv_def)
next
  case (snoc a acts)
  then show ?case
    by (simp add: run_snoc reachableInv_def goodState_step historyBound_step
          distinctNames_step [unfolded reachableInv_def])
qed

lemma reachable_name_position:
  assumes "p < length (deck (run acts constructor))"
    and "deck (run acts constructor) ! p = Some r"
    and "name (heap (run acts constructor) ! r) = name c"
  shows "findIndex (sameName (heap (run acts constructor)) c) (deck (run acts constructor)) = Some p"
proof -
  have "distinct (namesOf (deckView (run acts constructor)))"
    using reachableInv_run [of acts] by (simp add: reachableInv_def distinctNames_def)
  then show ?thesis using assms by (rule distinct_names_position)
qed


lemma the_knight_exact:
  assumes member: "k \<in> set (catalogCards cat)" and named: "name k = ''Knight''"
  shows "findBestCardMatch cat ''the knight'' =
      (case find (tier1 ''the knight'') (catalogCards cat) of
         Some c \<Rightarrow> Some c
       | None \<Rightarrow>
         (case find (tier2 ''the knight'') (catalogCards cat) of
            Some c \<Rightarrow> Some c
          | None \<Rightarrow> find (tier3 ''the knight'') (catalogCards cat)))
     \<and> find (tier3 ''the knight'') (catalogCards cat) \<noteq> None"
proof -
  let ?T = "''the knight''"
  let ?cs = "catalogCards cat"
  have result: "findBestCardMatch cat ?T =
      firstHit [tier1 ?T, tier2 ?T, tier3 ?T, tier4 ?T, tier5_trimmed ?T] ?cs"
    by (simp only: findBestCardMatch_cascade findBestMatch_trimmed_def Let_def the_knight_normal)
  have "tier3 ?T k"
    using named by (simp add: tier3_def containsIgnoreCase_def eitherContains_def the_knight_normal)
  with member have hit3: "find (tier3 ?T) ?cs \<noteq> None" by (auto simp: find_None_all)
  then show ?thesis by (auto simp: result split: option.splits)
qed

section \<open>Properties of the deck state machine\<close>

text \<open>
  C1. In every state reached from the initial deck of 8 empty slots by any sequence of
  actions (card selection, cycling, evolution toggle, undo, and also elixir selection, catalog
  loading and voice results), the deck has exactly 8 slots and so has every snapshot in the
  history, before and after every further action.
\<close>

theorem deck_length_always_8:
  "length (deck (run acts constructor)) = 8
   \<and> list_all (\<lambda>snapshot. length snapshot = 8) (history (run acts constructor))
   \<and> length (deck (step a (run acts constructor))) = 8
   \<and> list_all (\<lambda>snapshot. length snapshot = 8) (history (step a (run acts constructor)))"
proof -
  have before: "deckShape (run acts constructor)"
    using deckShape_constructor by (rule deckShape_run)
  then have "deckShape (step a (run acts constructor))"
    by (rule deckShape_step)
  with before show ?thesis by (simp add: deckShape_def)
qed

theorem deck_length_always_8_witness:
  "length (deck (run [SelectCard \<lparr>name = ''Knight'', image = ''knight.png'', alternatives = None\<rparr>,
                      CycleCard 7, ToggleEvolution 7] constructor)) = 8
   \<and> length (deck (step Undo
         (run [SelectCard \<lparr>name = ''Knight'', image = ''knight.png'', alternatives = None\<rparr>,
               CycleCard 7, ToggleEvolution 7] constructor))) = 8"
  using deck_length_always_8
    [of "[SelectCard \<lparr>name = ''Knight'', image = ''knight.png'', alternatives = None\<rparr>,
          CycleCard 7, ToggleEvolution 7]" Undo]
  by simp




text \<open>
  C3. For a deck without dangling references and an occupied position, \<open>cycleCard\<close>
  followed by \<open>undo\<close> gives back a deck with the contents it had before, at every
  position and with every \<open>isEvo\<close> flag, also when objects of the slots were written in
  place between the two: the snapshot holds copies that no slot of the deck refers to.
\<close>

theorem cycle_then_undo_restores_deck:
  assumes "validRefs (heap s) (deck s)"
    and "position < length (deck s)"
    and "deck s ! position \<noteq> None"
  shows "deckView (undo (mutateSlots ms (cycleCard position s))) = deckView s"
proof -
  from assms(2,3) obtain r where "slotAt (deck s) position = Some r"
    by (auto simp: slotAt_def)
  with assms(1) show ?thesis by (rule cycle_undo_view)
qed

theorem cycle_then_undo_restores_deck_witness:
  "validRefs (heap exampleState) (deck exampleState)
   \<and> 6 < length (deck exampleState)
   \<and> deck exampleState ! 6 \<noteq> None
   \<and> deckView (mutateSlots [(7, isEvo_update (\<lambda>_. True))] (cycleCard 6 exampleState))
       \<noteq> deckView (cycleCard 6 exampleState)
   \<and> deckView (undo (mutateSlots [(7, isEvo_update (\<lambda>_. True))] (cycleCard 6 exampleState)))
       = deckView exampleState"
proof -
  have valid: "validRefs (heap exampleState) (deck exampleState)" by code_simp
  have pos: "6 < length (deck exampleState)" by code_simp
  have occupied: "deck exampleState ! 6 \<noteq> None" by code_simp
  have written: "deckView (mutateSlots [(7, isEvo_update (\<lambda>_. True))] (cycleCard 6 exampleState))
       \<noteq> deckView (cycleCard 6 exampleState)" by code_simp
  show ?thesis
    using valid pos occupied written
      cycle_then_undo_restores_deck [OF valid pos occupied, of "[(7, isEvo_update (\<lambda>_. True))]"]
    by blast
qed

text \<open>
  C4. The history never holds more than 10 snapshots. Starting in any reachable state, after
  any sequence of snapshot pushes the history consists of the last 10 of the snapshots it held
  at the start followed by the decks as they were at each push, in push order: each push
  beyond the tenth discards the oldest entry.
\<close>

theorem history_keeps_last_10:
  assumes "pushes (run acts constructor) vs t"
  shows "length (history t) \<le> 10
     \<and> historyView t = lastN 10 (historyView (run acts constructor) @ vs)"
proof -
  have "length (history (run acts constructor)) \<le> 10"
    using historyBound_run [of acts] by (simp add: historyBound_def)
  with assms show ?thesis by (rule pushes_lastN)
qed

theorem history_keeps_last_10_witness:
  "length (history (run tenPushes constructor)) = 10
   \<and> hd (historyView (run tenPushes constructor)) = replicate 8 None
   \<and> pushes (run tenPushes constructor) [deckView (run tenPushes constructor)]
        (saveState (run tenPushes constructor))
   \<and> historyView (saveState (run tenPushes constructor))
       = lastN 10 (historyView (run tenPushes constructor)
                   @ [deckView (run tenPushes constructor)])
   \<and> historyView (saveState (run tenPushes constructor))
       = replicate 10 (replicate 7 None @ [Some (newSlotCard knight)])"
proof -
  have full: "length (history (run tenPushes constructor)) = 10" by code_simp
  have oldest: "hd (historyView (run tenPushes constructor)) = replicate 8 None"
    by code_simp
  have after: "historyView (saveState (run tenPushes constructor))
       = replicate 10 (replicate 7 None @ [Some (newSlotCard knight)])"
    by code_simp
  have p: "pushes (run tenPushes constructor) [deckView (run tenPushes constructor)]
        (saveState (run tenPushes constructor))"
    using wellFormed_run by (rule pushes_saveState)
  show ?thesis using full oldest after p history_keeps_last_10 [OF p] by blast
qed

text \<open>
  C5. Cycling a position whose slot is empty changes nothing: the state, and with it the
  deck and the history, stays as it was, so no snapshot is pushed.
\<close>

theorem cycle_empty_slot_noop:
  "position < length (deck s) \<Longrightarrow> deck s ! position = None \<Longrightarrow> cycleCard position s = s"
  by (simp add: cycleCard_def slotAt_def)

theorem cycle_empty_slot_noop_witness:
  "3 < length (deck constructor) \<and> deck constructor ! 3 = None
   \<and> cycleCard 3 constructor = constructor"
  using cycle_empty_slot_noop [of 3 constructor]
  by (simp add: constructor_def)

section \<open>Properties of the fuzzy matcher\<close>

text \<open>
  C6, as amended. \<open>findBestCardMatch\<close> lower-cases the spoken text and trims the white space
  around it, then tries exactly five tiers in this order, each on all cards in catalog
  iteration order, and returns the first card that passes the first tier with a hit:
  (1) the text equals the name, case ignored; (2) it equals an alternative, case ignored;
  (3) the text contains the name or the name the text, case ignored; (4) the same for an
  alternative; (5) the same for the name after the stop words are stripped from both texts and
  both stripped texts are trimmed. The result is not-found exactly when all five tiers miss
  on every card.
\<close>

theorem findBestCardMatch_five_tiers:
  "findBestCardMatch cat spokenText = findBestMatch_trimmed cat spokenText
   \<and> (findBestCardMatch cat spokenText = None \<longleftrightarrow>
        (\<forall>c \<in> set (catalogCards cat).
           \<not> tier1 (trim spokenText) c \<and> \<not> tier2 (trim spokenText) c
           \<and> \<not> tier3 (trim spokenText) c \<and> \<not> tier4 (trim spokenText) c
           \<and> \<not> tier5_trimmed (trim spokenText) c))"
  using cascade_None [of cat spokenText] tier1_tier3 [of "trim spokenText"]
    tier2_tier4 [of "trim spokenText"]
  by (auto simp: findBestCardMatch_cascade)

theorem findBestCardMatch_five_tiers_witness:
  "findBestCardMatch exampleCatalog ''Mega Knight''
     = findBestMatch_trimmed exampleCatalog ''Mega Knight''
   \<and> findBestMatch_trimmed exampleCatalog ''Mega Knight'' = Some megaKnight"
proof -
  have "findBestMatch_trimmed exampleCatalog ''Mega Knight'' = Some megaKnight"
    by code_simp
  then show ?thesis
    using findBestCardMatch_five_tiers [of exampleCatalog "''Mega Knight''"] by blast
qed

text \<open>
  Without the trimming the five tiers as worded do not give what the code returns. The
  spoken text \<open>'' knight''\<close> with its leading blank equals no name, but the code finds
  Knight at the first tier, where the tiers as worded go on to the third and find Mega
  Knight, whose name contains the text with its blank. And the stripped text \<open>'' knight''\<close>
  neither contains \<open>''knight rider''\<close> nor is contained in it, while the trimmed one is.
\<close>

theorem five_tiers_untrimmed_counterexample:
  "findBestCardMatch [(''4'', [megaKnight, knight])] '' knight'' = Some knight
   \<and> findBestMatch_spec [(''4'', [megaKnight, knight])] '' knight'' = Some megaKnight
   \<and> findBestCardMatch [(''4'', [knightRider])] ''the knight'' = Some knightRider
   \<and> findBestMatch_spec [(''4'', [knightRider])] ''the knight'' = None"
  by code_simp

text \<open>
  C7, as amended. For a catalog that holds a card named Knight, the spoken text
  \<open>''the knight''\<close> finds a card of the catalog: the first card that passes the first tier,
  else the first that passes the second, else the first that passes the third, which the
  card named Knight does. So it finds the card named Knight when no other card passes the
  second or the third tier, and never a card named Another Knight unless that card lists
  \<open>''the knight''\<close> as an alternative. Stripping removes \<open>the\<close>, \<open>a\<close>, \<open>an\<close> as whole words
  only: cut into its maximal runs of word characters and of other characters, a text loses
  exactly the runs that are one of the three words, and every match of the regular expression
  starts after a character that is no word character or at the start, and ends before one
  or at the end. So \<open>''the knight''\<close> becomes \<open>'' knight''\<close> and \<open>''another knight''\<close> stays as it
  is.
\<close>

theorem the_knight_not_another:
  assumes "k \<in> set (catalogCards cat)" and "name k = ''Knight''"
  shows "(\<exists>c. findBestCardMatch cat ''the knight'' = Some c \<and> c \<in> set (catalogCards cat)
              \<and> (name c = ''Another Knight'' \<longrightarrow> tier2 ''the knight'' c))
     \<and> ((\<forall>c \<in> set (catalogCards cat). c \<noteq> k \<longrightarrow>
             \<not> tier2 ''the knight'' c \<and> \<not> tier3 ''the knight'' c) \<longrightarrow>
          findBestCardMatch cat ''the knight'' = Some k)
     \<and> findBestCardMatch cat ''the knight'' =
          (case find (tier1 ''the knight'') (catalogCards cat) of
             Some c \<Rightarrow> Some c
           | None \<Rightarrow>
             (case find (tier2 ''the knight'') (catalogCards cat) of
                Some c \<Rightarrow> Some c
              | None \<Rightarrow> find (tier3 ''the knight'') (catalogCards cat)))
     \<and> find (tier3 ''the knight'') (catalogCards cat) \<noteq> None
     \<and> (\<forall>inp. stripStopwords inp = concat (filter (\<lambda>w. \<not> isStopword w) (runs inp))
            \<and> concat (runs inp) = inp
            \<and> alternating (runs inp) \<and> list_all oneClass (runs inp))
     \<and> (\<forall>prevWord rest l. matchStopword prevWord rest = Some l \<longrightarrow>
          \<not> prevWord \<and> take l rest \<in> {''the'', ''a'', ''an''}
          \<and> (case drop l rest of [] \<Rightarrow> True | c # _ \<Rightarrow> \<not> isWordChar c))
     \<and> stripStopwords ''the knight'' = '' knight''
     \<and> stripStopwords ''another knight'' = ''another knight''"
proof -
  have words: "\<forall>inp. stripStopwords inp = concat (filter (\<lambda>w. \<not> isStopword w) (runs inp))
            \<and> concat (runs inp) = inp
            \<and> alternating (runs inp) \<and> list_all oneClass (runs inp)"
    by (simp add: stripStopwords_runs concat_runs runs_alternating runs_oneClass)
  show ?thesis
    using the_knight_result [OF assms] the_knight_only [OF assms] the_knight_exact [OF assms]
      the_knight_strip matchStopword_whole_word words
    by blast
qed

theorem the_knight_not_another_witness:
  "knight \<in> set (catalogCards [(''3'', [anotherKnight, knight])])
   \<and> name knight = ''Knight''
   \<and> list_all (\<lambda>c. c = knight \<or> \<not> (tier2 ''the knight'' c \<or> tier3 ''the knight'' c))
        (catalogCards [(''3'', [anotherKnight, knight])])
   \<and> findBestCardMatch [(''3'', [anotherKnight, knight])] ''the knight'' = Some knight
   \<and> runs ''the mega knight'' = [''the'', '' '', ''mega'', '' '', ''knight'']
   \<and> stripStopwords ''the mega knight'' = '' mega knight''"
proof -
  let ?cat = "[(''3'', [anotherKnight, knight])]"
  have member: "knight \<in> set (catalogCards ?cat)"
    by (simp add: catalogCards_def)
  have named: "name knight = ''Knight''" by (simp add: knight_def)
  have others: "list_all (\<lambda>c. c = knight \<or> \<not> (tier2 ''the knight'' c \<or> tier3 ''the knight'' c))
      (catalogCards ?cat)"
    by code_simp
  have mega: "runs ''the mega knight'' = [''the'', '' '', ''mega'', '' '', ''knight'']"
    by code_simp
  have stripped: "stripStopwords ''the mega knight'' = '' mega knight''" by code_simp
  from others have "\<forall>c \<in> set (catalogCards ?cat). c \<noteq> knight \<longrightarrow>
      \<not> tier2 ''the knight'' c \<and> \<not> tier3 ''the knight'' c"
    unfolding list_all_iff by blast
  with the_knight_not_another [OF member named]
  have "findBestCardMatch ?cat ''the knight'' = Some knight" by blast
  with member named others mega stripped show ?thesis by blast
qed

text \<open>
  A card named Another Knight is returned when nothing is hit before the fifth tier: the
  stripped and trimmed spoken text \<open>''knight''\<close> is contained in \<open>''another knight''\<close>. And
  the card named Knight is not returned when another card is hit at an earlier tier, even
  when it comes later in the catalog: The Knight is an exact match.
\<close>

theorem the_knight_another_counterexample:
  "findBestCardMatch [(''3'', [anotherKnight])] ''the knight'' = Some anotherKnight
   \<and> findBestCardMatch [(''3'', [knight, theKnight])] ''the knight'' = Some theKnight
   \<and> theKnight \<noteq> knight"
  by code_simp

text \<open>
  C8, as amended. The spoken text \<open>''zzz-not-a-card''\<close> gives not-found exactly for the
  catalogs in which no name and no alternative contains it or is contained in it (case
  ignored), and no stripped and trimmed name contains, or is contained in,
  \<open>''zzz-not--card''\<close>, which is the text after stripping: the \<open>a\<close> between the hyphens is a
  whole word.
\<close>

theorem zzz_not_found:
  "findBestCardMatch cat ''zzz-not-a-card'' = None \<longleftrightarrow>
     (\<forall>c \<in> set (catalogCards cat).
        \<not> tier3 ''zzz-not-a-card'' c \<and> \<not> tier4 ''zzz-not-a-card'' c
        \<and> \<not> eitherContains ''zzz-not--card'' (trim (stripStopwords (toLowerCase (name c)))))"
  by (simp add: cascade_None zzz_normal tier5_trimmed_def)

theorem zzz_not_found_witness:
  "list_all (\<lambda>c. \<not> tier3 ''zzz-not-a-card'' c \<and> \<not> tier4 ''zzz-not-a-card'' c
        \<and> \<not> eitherContains ''zzz-not--card'' (trim (stripStopwords (toLowerCase (name c)))))
      (catalogCards exampleCatalog)
   \<and> findBestCardMatch exampleCatalog ''zzz-not-a-card'' = None"
proof -
  have misses: "list_all (\<lambda>c. \<not> tier3 ''zzz-not-a-card'' c \<and> \<not> tier4 ''zzz-not-a-card'' c
        \<and> \<not> eitherContains ''zzz-not--card'' (trim (stripStopwords (toLowerCase (name c)))))
      (catalogCards exampleCatalog)"
    by code_simp
  then show ?thesis
    using zzz_not_found [of exampleCatalog] by (simp add: list_all_iff)
qed

text \<open>A non-empty catalog for which the text is found: the name \<open>Card\<close> is part of it.\<close>

theorem zzz_found_counterexample:
  "findBestCardMatch [(''9'', [plainCard])] ''zzz-not-a-card'' = Some plainCard"
  by code_simp

section \<open>Properties of the voice commands\<close>

text \<open>
  C9. A transcript that, lower-cased, does not start with \<open>''add ''\<close> changes nothing: the
  matcher is not called, the deck, the history and the notifications stay as they are. A
  transcript that starts with \<open>''add ''\<close> and whose card name the matcher does not find leaves
  the deck, the objects and the history unchanged and adds the notification that the card
  was not found.
\<close>

theorem unrecognized_or_unmatched_transcript:
  "(\<not> startsWith (toLowerCase transcript) ''add '' \<longrightarrow>
      onresult transcript s = s \<and> matcherCalls (onresult transcript s) = matcherCalls s
      \<and> deck (onresult transcript s) = deck s \<and> history (onresult transcript s) = history s)
   \<and> (startsWith (toLowerCase transcript) ''add ''
        \<and> findBestCardMatch (cards s) (trim (drop 4 (toLowerCase transcript))) = None \<longrightarrow>
      deck (onresult transcript s) = deck s \<and> heap (onresult transcript s) = heap s
      \<and> history (onresult transcript s) = history s
      \<and> notifications (onresult transcript s) =
           notifications s @ [''Card not found: '' @ trim (drop 4 (toLowerCase transcript))])"
  by (simp add: onresult_def processVoiceCommand_def addCardByVoice_def
        showVoiceConfirmation_def)

theorem unrecognized_or_unmatched_transcript_witness:
  "\<not> startsWith (toLowerCase ''play gold knight'') ''add ''
   \<and> onresult ''play gold knight'' (loadCards exampleCatalog exampleState)
       = loadCards exampleCatalog exampleState
   \<and> startsWith (toLowerCase ''Add Zzz'') ''add ''
   \<and> findBestCardMatch (cards (loadCards exampleCatalog exampleState))
        (trim (drop 4 (toLowerCase ''Add Zzz''))) = None
   \<and> deck (onresult ''Add Zzz'' (loadCards exampleCatalog exampleState))
       = deck (loadCards exampleCatalog exampleState)
   \<and> notifications (onresult ''Add Zzz'' (loadCards exampleCatalog exampleState))
       = [''Card not found: zzz'']"
proof -
  let ?s = "loadCards exampleCatalog exampleState"
  have no_prefix: "\<not> startsWith (toLowerCase ''play gold knight'') ''add ''" by code_simp
  have with_prefix: "startsWith (toLowerCase ''Add Zzz'') ''add ''" by code_simp
  have spoken: "trim (drop 4 (toLowerCase ''Add Zzz'')) = ''zzz''" by code_simp
  have miss: "findBestCardMatch (cards ?s) (trim (drop 4 (toLowerCase ''Add Zzz''))) = None"
    by code_simp
  have before: "notifications ?s = []" by code_simp
  show ?thesis
    using no_prefix with_prefix miss
      unrecognized_or_unmatched_transcript [of "''play gold knight''" ?s]
      unrecognized_or_unmatched_transcript [of "''Add Zzz''" ?s]
    by (simp add: spoken before)
qed

text \<open>
  C10, as amended. For a catalog with at least one card the empty spoken text is never
  not-found. When no card has an empty name or an empty alternative, the result is the first
  card in catalog iteration order, found at the third tier, and the transcript \<open>''add ''\<close>
  makes \<open>selectCard\<close> run with that card. In general the result is the first card with an
  empty name, else the first card with an empty alternative, else the first card.
\<close>

theorem empty_text_first_card:
  assumes "catalogCards (cards s) = first # others"
  shows "findBestCardMatch (cards s) '''' \<noteq> None
     \<and> ((\<forall>c \<in> set (first # others). name c \<noteq> '''' \<and> '''' \<notin> set (alternativesOf c)) \<longrightarrow>
          findBestCardMatch (cards s) '''' = Some first
          \<and> onresult ''add '' s =
              showVoiceConfirmation (''Added: '' @ name first)
                (selectCard first (s\<lparr>matcherCalls := matcherCalls s @ ['''']\<rparr>)))
     \<and> findBestCardMatch (cards s) '''' =
          (case find (\<lambda>c. name c = '''') (first # others) of
             Some c \<Rightarrow> Some c
           | None \<Rightarrow>
             (case find (\<lambda>c. '''' \<in> set (alternativesOf c)) (first # others) of
                Some c \<Rightarrow> Some c
              | None \<Rightarrow> Some first))"
proof -
  have found: "findBestCardMatch (cards s) [] \<noteq> None"
    using assms by (rule empty_found)
  have "onresult ''add '' s =
      showVoiceConfirmation (''Added: '' @ name first)
        (selectCard first (s\<lparr>matcherCalls := matcherCalls s @ ['''']\<rparr>))"
    if "findBestCardMatch (cards s) [] = Some first"
    using that by (simp add: onresult_add_nothing addCardByVoice_def)
  moreover have "findBestCardMatch (cards s) [] =
          (case find (\<lambda>c. name c = []) (first # others) of
             Some c \<Rightarrow> Some c
           | None \<Rightarrow>
             (case find (\<lambda>c. [] \<in> set (alternativesOf c)) (first # others) of
                Some c \<Rightarrow> Some c
              | None \<Rightarrow> Some first))"
    using empty_cascade [of "cards s", unfolded assms list.case] .
  ultimately show ?thesis using found empty_first [OF assms] by blast
qed

theorem empty_text_first_card_witness:
  "catalogCards (cards (loadCards exampleCatalog constructor)) = knight # [archers, megaKnight]
   \<and> list_all (\<lambda>c. name c \<noteq> '''' \<and> '''' \<notin> set (alternativesOf c)) (knight # [archers, megaKnight])
   \<and> findBestCardMatch (cards (loadCards exampleCatalog constructor)) '''' = Some knight
   \<and> deckView (onresult ''add '' (loadCards exampleCatalog constructor))
       = replicate 7 None @ [Some (newSlotCard knight)]"
proof -
  let ?s = "loadCards exampleCatalog constructor"
  have cards: "catalogCards (cards ?s) = knight # [archers, megaKnight]" by code_simp
  have proper: "list_all (\<lambda>c. name c \<noteq> '''' \<and> '''' \<notin> set (alternativesOf c))
      (knight # [archers, megaKnight])" by code_simp
  then have proper': "\<forall>c \<in> set (knight # [archers, megaKnight]).
      name c \<noteq> '''' \<and> '''' \<notin> set (alternativesOf c)"
    by (simp only: list_all_iff)
  have result: "findBestCardMatch (cards ?s) '''' = Some knight
     \<and> onresult ''add '' ?s =
          showVoiceConfirmation (''Added: '' @ name knight)
            (selectCard knight (?s\<lparr>matcherCalls := matcherCalls ?s @ ['''']\<rparr>))"
    using empty_text_first_card [OF cards] proper' by blast
  have "deckView (showVoiceConfirmation (''Added: '' @ name knight)
            (selectCard knight (?s\<lparr>matcherCalls := matcherCalls ?s @ ['''']\<rparr>)))
       = replicate 7 None @ [Some (newSlotCard knight)]"
    by code_simp
  then show ?thesis using cards proper result by simp
qed

text \<open>
  A card with an empty alternative is hit at the second tier and returned although it is
  not the first card; and a catalog object that has a key but no card gives not-found.
\<close>

theorem empty_text_counterexample:
  "findBestCardMatch [(''3'', [knight, silentArchers])] '''' = Some silentArchers
   \<and> silentArchers \<noteq> knight
   \<and> findBestCardMatch [(''3'', [])] '''' = None"
  by code_simp

end
